theory Spec2Isabelle
  imports Main
begin

section \<open>Strings and character classes\<close>

text \<open>
  A JavaScript string is modelled as the list of its code units, and the model covers the
  strings whose code units are all below 256, so that one \<^typ>\<open>char\<close> is one code unit.
  On that range the classes used by the regular expressions of \<^verbatim>\<open>index.mjs\<close> are:
  the line terminators LF and CR (excluded by \<^verbatim>\<open>.\<close>, recognised by \<^verbatim>\<open>^\<close> under
  the \<^verbatim>\<open>m\<close> flag) and the white space of \<^verbatim>\<open>\s\<close>: TAB, LF, VT, FF, CR, SP and NBSP.
\<close>

definition LF :: char where
  "LF = CHR 0x0A"

definition CR :: char where
  "CR = CHR 0x0D"

definition TAB :: char where
  "TAB = CHR 0x09"

definition crlf :: string where
  "crlf = [CR, LF]"

definition is_lt :: "char \<Rightarrow> bool" where
  "is_lt x = (x = LF \<or> x = CR)"

definition is_dot :: "char \<Rightarrow> bool" where
  "is_dot x = (\<not> is_lt x)"

definition is_space :: "char \<Rightarrow> bool" where
  "is_space x = (x \<in> set [TAB, LF, CHR 0x0B, CHR 0x0C, CR, CHR 0x20, CHR 0xA0])"

text \<open>
  \<^verbatim>\<open>String.prototype.toLowerCase\<close> on code units below 256: the letters A to Z and the
  Latin-1 capitals 0xC0 to 0xDE (but not the multiplication sign 0xD7) move up by 32.
\<close>

definition lower_char :: "char \<Rightarrow> char" where
  "lower_char x =
     (let n = (of_char x :: nat)
      in if (65 \<le> n \<and> n \<le> 90) \<or> (192 \<le> n \<and> n \<le> 222 \<and> n \<noteq> 215)
         then char_of (n + 32) else x)"

definition toLowerCase :: "string \<Rightarrow> string" where
  "toLowerCase s = map lower_char s"

text \<open>
  Under the \<^verbatim>\<open>i\<close> flag a pattern character written in ASCII matches exactly the two
  cases of that ASCII letter (or the character itself when it is no letter): the
  canonicalisation of ECMAScript never maps a code unit of 128 or more to an ASCII one.
\<close>

definition upper_ascii :: "char \<Rightarrow> char" where
  "upper_ascii x =
     (let n = (of_char x :: nat)
      in if 97 \<le> n \<and> n \<le> 122 then char_of (n - 32) else x)"

definition ci :: "char \<Rightarrow> char \<Rightarrow> bool" where
  "ci a x = (upper_ascii x = upper_ascii a)"

text \<open>\<^verbatim>\<open>String.prototype.trim\<close> removes white space and line terminators at both ends.\<close>

definition trim :: "string \<Rightarrow> string" where
  "trim s = rev (dropWhile is_space (rev (dropWhile is_space s)))"

text \<open>
  \<^verbatim>\<open>lastIndexOf\<close> of a one-character pattern: \<open>None\<close> stands for the result -1.
\<close>

fun lastIndexOf :: "string \<Rightarrow> char \<Rightarrow> nat option" where
  "lastIndexOf [] a = None"
| "lastIndexOf (x # xs) a =
     (case lastIndexOf xs a of
        Some i \<Rightarrow> Some (Suc i)
      | None \<Rightarrow> if x = a then Some 0 else None)"

section \<open>A backtracking matcher for the regular expressions of the source\<close>

text \<open>
  The regular expressions of \<^verbatim>\<open>index.mjs\<close> are kept as syntax trees and run by a
  matcher that follows the backtracking semantics of ECMAScript (continuation passing, the
  leftmost alternative first, greedy or lazy repetition, an iteration that consumes
  nothing is rejected, the captures of a repeated group are reset at each iteration).
  A position is the code unit before it (if any) and the input still to read.
\<close>

datatype re =
    Cls "char \<Rightarrow> bool"
  | Bol
  | Eps
  | Seq re re
  | Alt re re
  | Star bool re
  | Grp nat re

type_synonym pos = "char option \<times> string"
type_synonym caps = "nat \<Rightarrow> string option"
type_synonym mres = "(caps \<times> pos) option"
type_synonym cont = "caps \<Rightarrow> pos \<Rightarrow> mres"

primrec grps :: "re \<Rightarrow> nat list" where
  "grps (Cls P) = []"
| "grps Bol = []"
| "grps Eps = []"
| "grps (Seq a b) = grps a @ grps b"
| "grps (Alt a b) = grps a @ grps b"
| "grps (Star g a) = grps a"
| "grps (Grp i a) = i # grps a"

definition clear :: "nat list \<Rightarrow> caps \<Rightarrow> caps" where
  "clear js c = (\<lambda>i. if i \<in> set js then None else c i)"

definition captured :: "pos \<Rightarrow> pos \<Rightarrow> string" where
  "captured p q = take (length (snd p) - length (snd q)) (snd p)"

text \<open>
  The repetition \<open>a*\<close> (greedy) or \<open>a*?\<close> (lazy), after RepeatMatcher of the ECMAScript
  specification. The first argument counts the iterations still allowed; every iteration
  consumes at least one code unit, so one more than the length of the input left is never
  used up.
\<close>

primrec repeat :: "bool \<Rightarrow> nat list \<Rightarrow> (cont \<Rightarrow> cont) \<Rightarrow> nat \<Rightarrow> cont \<Rightarrow> cont" where
  "repeat g js m 0 = (\<lambda>k c p. k c p)"
| "repeat g js m (Suc n) = (\<lambda>k c p.
     (let d = (\<lambda>c' q. if length (snd q) = length (snd p) then None
                        else repeat g js m n k c' q)
      in if g then (case m d (clear js c) p of Some r \<Rightarrow> Some r | None \<Rightarrow> k c p)
         else (case k c p of Some r \<Rightarrow> Some r | None \<Rightarrow> m d (clear js c) p)))"

primrec rmatch :: "re \<Rightarrow> cont \<Rightarrow> cont" where
  "rmatch (Cls P) = (\<lambda>k c p.
     (case snd p of [] \<Rightarrow> None | x # xs \<Rightarrow> if P x then k c (Some x, xs) else None))"
| "rmatch Bol = (\<lambda>k c p.
     (case fst p of None \<Rightarrow> k c p | Some x \<Rightarrow> if is_lt x then k c p else None))"
| "rmatch Eps = (\<lambda>k c p. k c p)"
| "rmatch (Seq a b) = (\<lambda>k c p. rmatch a (rmatch b k) c p)"
| "rmatch (Alt a b) = (\<lambda>k c p.
     (case rmatch a k c p of Some r \<Rightarrow> Some r | None \<Rightarrow> rmatch b k c p))"
| "rmatch (Star g a) = (\<lambda>k c p.
     repeat g (grps a) (rmatch a) (Suc (length (snd p))) k c p)"
| "rmatch (Grp i a) = (\<lambda>k c p.
     rmatch a (\<lambda>c' q. k (c'(i \<mapsto> captured p q)) q) c p)"

text \<open>
  Derived forms: \<open>a+\<close> is \<open>a\<close> followed by \<open>a*\<close>; \<open>a?\<close> tries \<open>a\<close> and then nothing
  (the source puts \<^verbatim>\<open>?\<close> and \<^verbatim>\<open>+\<close> on atoms of one character only, which never match the
  empty text); a literal; a literal under the \<^verbatim>\<open>i\<close> flag; a sequence.
\<close>

definition Plus :: "re \<Rightarrow> re" where
  "Plus a = Seq a (Star True a)"

definition Opt :: "re \<Rightarrow> re" where
  "Opt a = Alt a Eps"

definition Lit :: "char \<Rightarrow> re" where
  "Lit a = Cls (\<lambda>x. x = a)"

fun lit_i :: "string \<Rightarrow> re" where
  "lit_i [] = Eps"
| "lit_i (a # as) = Seq (Cls (ci a)) (lit_i as)"

fun seqs :: "re list \<Rightarrow> re" where
  "seqs [] = Eps"
| "seqs [a] = a"
| "seqs (a # as) = Seq a (seqs as)"

text \<open>One attempt at one position: the captures and the position after the match.\<close>

definition match_at :: "re \<Rightarrow> pos \<Rightarrow> mres" where
  "match_at r p = rmatch r (\<lambda>c q. Some (c, q)) (\<lambda>i. None) p"

text \<open>
  \<^verbatim>\<open>RegExp.prototype.exec\<close> without the \<^verbatim>\<open>g\<close> flag: the leftmost position with a match.
  The result is the text before the match, the matched text, the captures and the text
  after the match.
\<close>

fun exec :: "re \<Rightarrow> char option \<Rightarrow> string \<Rightarrow> (string \<times> string \<times> caps \<times> string) option" where
  "exec r pr [] =
     (case match_at r (pr, []) of
        Some (c, q) \<Rightarrow> Some ([], [], c, [])
      | None \<Rightarrow> None)"
| "exec r pr (x # xs) =
     (case match_at r (pr, x # xs) of
        Some (c, q) \<Rightarrow> Some ([], captured (pr, x # xs) q, c, snd q)
      | None \<Rightarrow>
          (case exec r (Some x) xs of
             Some (sk, mt, c, rest) \<Rightarrow> Some (x # sk, mt, c, rest)
           | None \<Rightarrow> None))"

definition re_test :: "re \<Rightarrow> string \<Rightarrow> bool" where
  "re_test r s = (exec r None s \<noteq> None)"

text \<open>
  A replacement is computed from the text before the match, the matched text, the
  captures and the text after the match. \<^verbatim>\<open>String.prototype.replace\<close> with a regular
  expression without the \<^verbatim>\<open>g\<close> flag replaces the first match.
\<close>

type_synonym replacer = "string \<Rightarrow> string \<Rightarrow> caps \<Rightarrow> string \<Rightarrow> string"

definition replace_first :: "re \<Rightarrow> replacer \<Rightarrow> string \<Rightarrow> string" where
  "replace_first r f s =
     (case exec r None s of
        None \<Rightarrow> s
      | Some (sk, mt, c, rest) \<Rightarrow> sk @ f sk mt c rest @ rest)"

text \<open>
  The same with the \<^verbatim>\<open>g\<close> flag: every match, from left to right, the search resuming
  after the match (one code unit further after an empty match). \<open>bf\<close> is the input
  already passed, and the counter is the number of code units of the current match still
  to skip.
\<close>

fun scan :: "re \<Rightarrow> replacer \<Rightarrow> string \<Rightarrow> nat \<Rightarrow> char option \<Rightarrow> string \<Rightarrow> string" where
  "scan r f bf (Suc n) pr (x # xs) = scan r f (bf @ [x]) n (Some x) xs"
| "scan r f bf (Suc n) pr [] = []"
| "scan r f bf 0 pr [] =
     (case match_at r (pr, []) of Some (c, q) \<Rightarrow> f bf [] c [] | None \<Rightarrow> [])"
| "scan r f bf 0 pr (x # xs) =
     (case match_at r (pr, x # xs) of
        None \<Rightarrow> x # scan r f (bf @ [x]) 0 (Some x) xs
      | Some (c, q) \<Rightarrow>
          (case captured (pr, x # xs) q of
             [] \<Rightarrow> f bf [] c (x # xs) @ x # scan r f (bf @ [x]) 0 (Some x) xs
           | y # ys \<Rightarrow> f bf (y # ys) c (snd q) @ scan r f (bf @ [x]) (length ys) (Some x) xs))"

definition replace_all :: "re \<Rightarrow> replacer \<Rightarrow> string \<Rightarrow> string" where
  "replace_all r f s = scan r f [] 0 None s"

text \<open>
  A replacement given as a string is a template (GetSubstitution of ECMAScript):
  \<^verbatim>\<open>$$\<close> is a dollar sign, \<^verbatim>\<open>$&\<close> the matched text, \<^verbatim>\<open>$`\<close> and \<^verbatim>\<open>$'\<close> the text before
  and after the match, \<^verbatim>\<open>$n\<close> and \<^verbatim>\<open>$nn\<close> the capture of that number when the expression
  has that many groups (\<open>m\<close> of them); anything else stands for itself.
\<close>

definition digit_val :: "char \<Rightarrow> nat option" where
  "digit_val x =
     (let n = (of_char x :: nat) in if 48 \<le> n \<and> n \<le> 57 then Some (n - 48) else None)"

definition cap_text :: "caps \<Rightarrow> nat \<Rightarrow> string" where
  "cap_text c i = (case c i of None \<Rightarrow> [] | Some v \<Rightarrow> v)"

fun expand :: "nat \<Rightarrow> string \<Rightarrow> replacer" where
  "expand m [] bf mt c af = []"
| "expand m [x] bf mt c af = [x]"
| "expand m (x # y # t) bf mt c af =
     (if x \<noteq> CHR ''$'' then x # expand m (y # t) bf mt c af
      else if y = CHR ''$'' then CHR ''$'' # expand m t bf mt c af
      else if y = CHR 0x60 then bf @ expand m t bf mt c af
      else if y = CHR ''&'' then mt @ expand m t bf mt c af
      else if y = CHR 0x27 then af @ expand m t bf mt c af
      else
        (case digit_val y of
           None \<Rightarrow> x # expand m (y # t) bf mt c af
         | Some d1 \<Rightarrow>
             (let one = (if 1 \<le> d1 \<and> d1 \<le> m
                         then cap_text c d1 @ expand m t bf mt c af
                         else x # y # expand m t bf mt c af)
              in case t of
                   [] \<Rightarrow> one
                 | z # t' \<Rightarrow>
                     (case digit_val z of
                        None \<Rightarrow> one
                      | Some d2 \<Rightarrow>
                          if m < 10 * d1 + d2 then one
                          else if 1 \<le> 10 * d1 + d2
                          then cap_text c (10 * d1 + d2) @ expand m t' bf mt c af
                          else x # y # z # expand m t' bf mt c af))))"

text \<open>
  \<^verbatim>\<open>String.prototype.replace\<close> with a one-character string as the pattern: the first
  occurrence only.
\<close>

fun replace_char :: "char \<Rightarrow> string \<Rightarrow> string \<Rightarrow> string" where
  "replace_char a w [] = []"
| "replace_char a w (x # xs) = (if x = a then w @ xs else x # replace_char a w xs)"


section \<open>The regular expressions of the source\<close>

definition sp_tab :: "char \<Rightarrow> bool" where
  "sp_tab x = (x = TAB \<or> x = CHR '' '')"

text \<open>\<^verbatim>\<open>/\+.*?@/\<close>\<close>

definition plus_re :: re where
  "plus_re = seqs [Lit CHR ''+'', Star False (Cls is_dot), Lit CHR ''@'']"

text \<open>\<^verbatim>\<open>/^((?:.+\r?\n)*)(\r?\n(?:.*\s+)*)/m\<close>\<close>

definition split_re :: re where
  "split_re = seqs [Bol,
     Grp 1 (Star True (seqs [Plus (Cls is_dot), Opt (Lit CR), Lit LF])),
     Grp 2 (seqs [Opt (Lit CR), Lit LF,
                  Star True (seqs [Star True (Cls is_dot), Plus (Cls is_space)])])]"

text \<open>\<^verbatim>\<open>/^reply-to:[\t ]?/im\<close>\<close>

definition reply_to_re :: re where
  "reply_to_re = seqs [Bol, lit_i ''reply-to:'', Opt (Cls sp_tab)]"

text \<open>\<^verbatim>\<open>/^from:[\t ]?(.*(?:\r?\n\s+.*)*\r?\n)/im\<close>\<close>

definition from_line_re :: re where
  "from_line_re = seqs [Bol, lit_i ''from:'', Opt (Cls sp_tab),
     Grp 1 (seqs [Star True (Cls is_dot),
                  Star True (seqs [Opt (Lit CR), Lit LF, Plus (Cls is_space),
                                   Star True (Cls is_dot)]),
                  Opt (Lit CR), Lit LF])]"

text \<open>\<^verbatim>\<open>/^from:[\t ]?(.*(?:\r?\n\s+.*)*)/gim\<close>\<close>

definition from_re :: re where
  "from_re = seqs [Bol, lit_i ''from:'', Opt (Cls sp_tab),
     Grp 1 (seqs [Star True (Cls is_dot),
                  Star True (seqs [Opt (Lit CR), Lit LF, Plus (Cls is_space),
                                   Star True (Cls is_dot)])])]"

text \<open>\<^verbatim>\<open>/<(.*)>/\<close>\<close>

definition angle_re :: re where
  "angle_re = seqs [Lit CHR ''<'', Grp 1 (Star True (Cls is_dot)), Lit CHR ''>'']"

text \<open>\<^verbatim>\<open>/^subject:[\t ]?(.*)/gim\<close>\<close>

definition subject_re :: re where
  "subject_re = seqs [Bol, lit_i ''subject:'', Opt (Cls sp_tab),
     Grp 1 (Star True (Cls is_dot))]"

text \<open>\<^verbatim>\<open>/^to:[\t ]?(.*)/gim\<close>\<close>

definition to_re :: re where
  "to_re = seqs [Bol, lit_i ''to:'', Opt (Cls sp_tab), Grp 1 (Star True (Cls is_dot))]"

text \<open>
  \<^verbatim>\<open>/^return-path:[\t ]?(.*)\r?\n/gim\<close>, \<^verbatim>\<open>/^sender:[\t ]?(.*)\r?\n/gim\<close> and
  \<^verbatim>\<open>/^message-id:[\t ]?(.*)\r?\n/gim\<close> differ in the header name only.
\<close>

definition one_line_re :: "string \<Rightarrow> re" where
  "one_line_re name = seqs [Bol, lit_i name, Opt (Cls sp_tab),
     Grp 1 (Star True (Cls is_dot)), Opt (Lit CR), Lit LF]"

definition return_path_re :: re where
  "return_path_re = one_line_re ''return-path:''"

definition sender_re :: re where
  "sender_re = one_line_re ''sender:''"

definition message_id_re :: re where
  "message_id_re = one_line_re ''message-id:''"

text \<open>\<^verbatim>\<open>/^dkim-signature:[\t ]?.*\r?\n(\s+.*\r?\n)*/gim\<close>\<close>

definition dkim_re :: re where
  "dkim_re = seqs [Bol, lit_i ''dkim-signature:'', Opt (Cls sp_tab),
     Star True (Cls is_dot), Opt (Lit CR), Lit LF,
     Star True (Grp 1 (seqs [Plus (Cls is_space), Star True (Cls is_dot),
                             Opt (Lit CR), Lit LF]))]"

section \<open>Configuration and recipient resolution\<close>

text \<open>
  The configuration object. An optional string is \<open>None\<close> when the key is absent; a
  condition on it holds when it is present and not empty. \<^verbatim>\<open>forwardMapping\<close> is an
  object whose own properties are the rule keys.
\<close>

record config =
  fromEmail :: "string option"
  subjectPrefix :: "string option"
  toEmail :: "string option"
  emailBucket :: string
  emailKeyPrefix :: string
  allowPlusSign :: bool
  forwardMapping :: "string \<rightharpoonup> string list"

definition truthy :: "string option \<Rightarrow> bool" where
  "truthy v = (case v of None \<Rightarrow> False | Some s \<Rightarrow> s \<noteq> [])"

definition str :: "string option \<Rightarrow> string" where
  "str v = (case v of None \<Rightarrow> ''undefined'' | Some s \<Rightarrow> s)"

text \<open>
  What the code throws: an \<^verbatim>\<open>Error\<close> or a \<^verbatim>\<open>TypeError\<close>, with its message.
\<close>

datatype js_error = Error string | TypeError string

fun message :: "js_error \<Rightarrow> string" where
  "message (Error m) = m"
| "message (TypeError m) = m"

text \<open>
  The rule table is a plain object: the map gives its own properties, each an array of
  addresses, and everything else comes from \<^verbatim>\<open>Object.prototype\<close>. The source asks for a
  key with \<^verbatim>\<open>data.config.forwardMapping.hasOwnProperty(key)\<close>, a method looked up on the
  table itself: a rule stored under the key \<^verbatim>\<open>hasOwnProperty\<close> hides the inherited
  method, and the call of the array found instead throws.
\<close>

definition not_a_function :: js_error where
  "not_a_function = TypeError ''data.config.forwardMapping.hasOwnProperty is not a function''"

definition hasOwnProperty ::
  "(string \<rightharpoonup> string list) \<Rightarrow> string \<Rightarrow> js_error + bool" where
  "hasOwnProperty m k =
     (if m ''hasOwnProperty'' \<noteq> None then Inl not_a_function else Inr (m k \<noteq> None))"

definition get_prop :: "(string \<rightharpoonup> string list) \<Rightarrow> string \<Rightarrow> string list" where
  "get_prop m k = (case m k of None \<Rightarrow> [] | Some v \<Rightarrow> v)"

text \<open>
  The key looked up for an original recipient: lower case, and with
  \<^verbatim>\<open>allowPlusSign\<close> the first match of \<^verbatim>\<open>/\+.*?@/\<close> replaced by \<^verbatim>\<open>@\<close>.
\<close>

definition emailKey :: "config \<Rightarrow> string \<Rightarrow> string" where
  "emailKey cfg origEmail =
     (let origEmailKey = toLowerCase origEmail
      in if allowPlusSign cfg then replace_first plus_re (expand 0 ''@'') origEmailKey
         else origEmailKey)"

text \<open>
  The body of the \<^verbatim>\<open>forEach\<close> of \<^verbatim>\<open>transformRecipients\<close>, on the pair of
  \<^verbatim>\<open>newRecipients\<close> and \<^verbatim>\<open>data.originalRecipient\<close>. \<^verbatim>\<open>origEmailDomain\<close> stays
  undefined when the key has no \<^verbatim>\<open>@\<close>. The tests for the domain and for the user are
  guarded by \<^verbatim>\<open>&&\<close>: the table is asked only when the guard holds. A test that throws
  ends the body with its error.
\<close>

definition forEachRecipient ::
  "config \<Rightarrow> string list \<times> string option \<Rightarrow> string \<Rightarrow>
     js_error + string list \<times> string option" where
  "forEachRecipient cfg st origEmail =
     (let origEmailKey = emailKey cfg origEmail;
          fm = forwardMapping cfg
      in case hasOwnProperty fm origEmailKey of
           Inl err \<Rightarrow> Inl err
         | Inr at_address \<Rightarrow>
             if at_address then Inr (fst st @ get_prop fm origEmailKey, Some origEmail)
             else
               (let pos = lastIndexOf origEmailKey CHR ''@'';
                    origEmailDomain = (case pos of None \<Rightarrow> None
                                       | Some i \<Rightarrow> Some (drop i origEmailKey));
                    origEmailUser = (case pos of None \<Rightarrow> origEmailKey
                                     | Some i \<Rightarrow> take i origEmailKey)
                in case (if truthy origEmailDomain
                         then hasOwnProperty fm (str origEmailDomain) else Inr False) of
                     Inl err \<Rightarrow> Inl err
                   | Inr at_domain \<Rightarrow>
                       if at_domain then Inr (fst st @ get_prop fm (str origEmailDomain), Some origEmail)
                       else
                         (case (if origEmailUser \<noteq> []
                                then hasOwnProperty fm origEmailUser else Inr False) of
                            Inl err \<Rightarrow> Inl err
                          | Inr at_user \<Rightarrow>
                              if at_user then Inr (fst st @ get_prop fm origEmailUser, Some origEmail)
                              else
                                (case hasOwnProperty fm ''@'' of
                                   Inl err \<Rightarrow> Inl err
                                 | Inr at_all \<Rightarrow>
                                     if at_all
                                     then Inr (fst st @ get_prop fm ''@'', Some origEmail)
                                     else Inr st))))"

text \<open>
  \<^verbatim>\<open>Array.prototype.forEach\<close> with a body that may throw: the elements are visited in
  order, and the first error ends the loop.
\<close>

fun forEach :: "('s \<Rightarrow> 'a \<Rightarrow> js_error + 's) \<Rightarrow> 's \<Rightarrow> 'a list \<Rightarrow> js_error + 's" where
  "forEach f st [] = Inr st"
| "forEach f st (x # xs) = (case f st x of Inl err \<Rightarrow> Inl err | Inr st' \<Rightarrow> forEach f st' xs)"

definition resolve ::
  "config \<Rightarrow> string option \<Rightarrow> string list \<Rightarrow> js_error + string list \<times> string option" where
  "resolve cfg orig rs = forEach (forEachRecipient cfg) ([], orig) rs"

section \<open>The header rewrite\<close>

text \<open>
  The split of \<^verbatim>\<open>processMessage\<close>: the header is the first capture when there is a
  match and the capture is not empty, and the whole text otherwise; the body is the second
  capture when there is a match and it is not empty, and empty otherwise.
\<close>

definition split_header :: "string \<Rightarrow> string" where
  "split_header emailData =
     (case exec split_re None emailData of
        None \<Rightarrow> emailData
      | Some (sk, mt, c, rest) \<Rightarrow> if cap_text c 1 \<noteq> [] then cap_text c 1 else emailData)"

definition split_body :: "string \<Rightarrow> string" where
  "split_body emailData =
     (case exec split_re None emailData of
        None \<Rightarrow> []
      | Some (sk, mt, c, rest) \<Rightarrow> cap_text c 2)"

text \<open>
  The steps of \<^verbatim>\<open>processMessage\<close> on the header, in the order of the source. First,
  the \<^verbatim>\<open>Reply-To:\<close> header is added with the \<^verbatim>\<open>From:\<close> value when there is none yet: \<open>from_value\<close> is
  the first capture of the match for \<^verbatim>\<open>From:\<close>, the value with its continuation lines
  and its final line break, or empty without a match.
\<close>

definition from_value :: "string \<Rightarrow> string" where
  "from_value header =
     (case exec from_line_re None header of
        None \<Rightarrow> []
      | Some (sk, mt, c, rest) \<Rightarrow> cap_text c 1)"

definition addReplyTo :: "string \<Rightarrow> string" where
  "addReplyTo header =
     (if \<not> re_test reply_to_re header
      then (let from = from_value header
            in if from \<noteq> [] then header @ ''Reply-To: '' @ from else header)
      else header)"

text \<open>
  Every \<^verbatim>\<open>From:\<close> header is replaced: with \<^verbatim>\<open>fromEmail\<close> configured, by the
  trimmed value without its first \<^verbatim>\<open><...>\<close> and the configured address; otherwise by
  the value with its first \<^verbatim>\<open><\<close> turned into \<^verbatim>\<open>at \<close>, its first \<^verbatim>\<open>>\<close> removed, and the
  original recipient as the address (\<^verbatim>\<open>undefined\<close> when none was recorded).
\<close>

definition fromText :: "config \<Rightarrow> string option \<Rightarrow> replacer" where
  "fromText cfg originalRecipient bf mt c af =
     (let from = cap_text c 1
      in if truthy (fromEmail cfg)
         then ''From: '' @ trim (replace_first angle_re (expand 1 []) from) @
              '' <'' @ str (fromEmail cfg) @ ''>''
         else ''From: '' @ replace_char CHR ''>'' [] (replace_char CHR ''<'' ''at '' from) @
              '' <'' @ str originalRecipient @ ''>'')"

definition rewriteFrom :: "config \<Rightarrow> string option \<Rightarrow> string \<Rightarrow> string" where
  "rewriteFrom cfg originalRecipient header =
     replace_all from_re (fromText cfg originalRecipient) header"

text \<open>The prefix is added to the subject when \<^verbatim>\<open>subjectPrefix\<close> is configured and not empty.\<close>

definition subjectText :: "string \<Rightarrow> replacer" where
  "subjectText prefix bf mt c af = ''Subject: '' @ prefix @ cap_text c 1"

definition prefixSubject :: "config \<Rightarrow> string \<Rightarrow> string" where
  "prefixSubject cfg header =
     (if truthy (subjectPrefix cfg)
      then replace_all subject_re (subjectText (str (subjectPrefix cfg))) header
      else header)"

text \<open>
  The \<^verbatim>\<open>To:\<close> header is replaced by the configured one when \<^verbatim>\<open>toEmail\<close> is
  configured and not empty; the replacement is given as a string, hence a template.
\<close>

definition overrideTo :: "config \<Rightarrow> string \<Rightarrow> string" where
  "overrideTo cfg header =
     (if truthy (toEmail cfg)
      then replace_all to_re (expand 1 (''To: '' @ str (toEmail cfg))) header
      else header)"

text \<open>
  The four removals, in the order of the source: \<^verbatim>\<open>Return-Path\<close>, \<^verbatim>\<open>Sender\<close>,
  \<^verbatim>\<open>Message-ID\<close>, then all \<^verbatim>\<open>DKIM-Signature\<close> headers.
\<close>

definition stripHeaders :: "string \<Rightarrow> string" where
  "stripHeaders header =
     replace_all dkim_re (expand 1 [])
       (replace_all message_id_re (expand 1 [])
          (replace_all sender_re (expand 1 [])
             (replace_all return_path_re (expand 1 []) header)))"

text \<open>The new \<^verbatim>\<open>data.emailData\<close>: the rewritten header followed by the body.\<close>

definition rewrite :: "config \<Rightarrow> string option \<Rightarrow> string \<Rightarrow> string" where
  "rewrite cfg originalRecipient emailData =
     stripHeaders
       (overrideTo cfg
          (prefixSubject cfg
             (rewriteFrom cfg originalRecipient
                (addReplyTo (split_header emailData))))) @
     split_body emailData"

section \<open>The steps and the handler\<close>

text \<open>
  The SES event as far as the code reads it. A property that may be absent is an option.
\<close>

record mail =
  messageId :: string

record receipt =
  receipt_recipients :: "string list option"

record ses_payload =
  ses_mail :: "mail option"
  ses_receipt :: "receipt option"

record ses_record =
  eventSource :: "string option"
  eventVersion :: "string option"
  ses :: "ses_payload option"

record ses_event =
  Records :: "ses_record list option"

text \<open>
  The data bundle threaded through the steps. Its \<^verbatim>\<open>callback\<close>, \<^verbatim>\<open>log\<close>, \<^verbatim>\<open>s3\<close> and
  \<^verbatim>\<open>ses\<close> members are the collaborators below.
\<close>

record data =
  event :: "ses_event option"
  config :: config
  email :: "mail option"
  recipients :: "string list option"
  originalRecipients :: "string list option"
  originalRecipient :: "string option"
  emailData :: "string option"

datatype jsval = Undefined | Ctx data

datatype level = Info | ErrorLevel

text \<open>
  What a run does to the outside, in order: log entries (level and message), calls of the
  completion callback (with or without an error), the two requests to the store (bucket
  and key) and the request to send (destinations, source, raw message).
\<close>

datatype effect =
    Log level string
  | Callback "js_error option"
  | S3Copy string string
  | S3Get string string
  | SesSend "string list" "string option" string

datatype get_result = GetFailed js_error | BodyFailed js_error | Body string

text \<open>
  The collaborators: what the store and the mail service answer, and the value the
  completion callback returns to its caller.
\<close>

record env =
  s3_copy :: "string \<Rightarrow> string \<Rightarrow> js_error + unit"
  s3_get :: "string \<Rightarrow> string \<Rightarrow> get_result"
  ses_send :: "string list \<Rightarrow> string option \<Rightarrow> string \<Rightarrow> js_error + unit"
  callback_ret :: jsval

type_synonym outcome = "(js_error + jsval) \<times> effect list"
type_synonym step = "jsval \<Rightarrow> outcome"

text \<open>Reading a property of \<^verbatim>\<open>undefined\<close> throws; the text is the engine's.\<close>

definition undefined_read :: "string \<Rightarrow> js_error" where
  "undefined_read name =
     TypeError (''Cannot read properties of undefined (reading '' @
                [CHR 0x27] @ name @ [CHR 0x27] @ '')'')"

fun join :: "string \<Rightarrow> string list \<Rightarrow> string" where
  "join sep [] = []"
| "join sep [x] = x"
| "join sep (x # xs) = x @ sep @ join sep xs"

definition invalid_event :: outcome where
  "invalid_event =
     (Inl (Error ''Error: Received invalid SES message.''),
      [Log ErrorLevel ''parseEvent() received invalid SES message:''])"

definition parseEvent :: step where
  "parseEvent v =
     (case v of
        Undefined \<Rightarrow> (Inl (undefined_read ''event''), [])
      | Ctx d \<Rightarrow>
          (case event d of
             None \<Rightarrow> invalid_event
           | Some e \<Rightarrow>
               (case Records e of
                  None \<Rightarrow> invalid_event
                | Some rs \<Rightarrow>
                    (case rs of
                       [r] \<Rightarrow>
                         if eventSource r = None \<or> eventSource r \<noteq> Some ''aws:ses'' \<or>
                            eventVersion r \<noteq> Some ''1.0''
                         then invalid_event
                         else
                           (case ses r of
                              None \<Rightarrow> (Inl (undefined_read ''mail''), [])
                            | Some p \<Rightarrow>
                                (case ses_receipt p of
                                   None \<Rightarrow> (Inl (undefined_read ''recipients''), [])
                                 | Some rc \<Rightarrow>
                                     (Inr (Ctx (d\<lparr>email := ses_mail p,
                                                  recipients := receipt_recipients rc\<rparr>)),
                                      [])))
                     | _ \<Rightarrow> invalid_event))))"

text \<open>
  \<^verbatim>\<open>transformRecipients\<close>: an error thrown in the loop rejects the step, before anything is
  logged. Without new recipients the step logs, calls the completion callback and returns
  what the callback returned.
\<close>

definition transformRecipients :: "env \<Rightarrow> step" where
  "transformRecipients ev v =
     (case v of
        Undefined \<Rightarrow> (Inl (undefined_read ''recipients''), [])
      | Ctx d \<Rightarrow>
          (case recipients d of
             None \<Rightarrow> (Inl (undefined_read ''forEach''), [])
           | Some rs \<Rightarrow>
               (case resolve (config d) (originalRecipient d) rs of
                  Inl err \<Rightarrow> (Inl err, [])
                | Inr (newRecipients, orig) \<Rightarrow>
                    if newRecipients = []
                    then (Inr (callback_ret ev),
                          [Log Info (''Finishing process. No new recipients found for '' @
                                     ''original destinations: '' @ join '', '' rs),
                           Callback None])
                    else (Inr (Ctx (d\<lparr>originalRecipients := Some rs,
                                         originalRecipient := orig,
                                         recipients := Some newRecipients\<rparr>)),
                          []))))"

definition fetchMessage :: "env \<Rightarrow> step" where
  "fetchMessage ev v =
     (case v of
        Undefined \<Rightarrow> (Inl (undefined_read ''log''), [])
      | Ctx d \<Rightarrow>
          (case email d of
             None \<Rightarrow> (Inl (undefined_read ''messageId''), [])
           | Some m \<Rightarrow>
               (let bucket = emailBucket (config d);
                    key = emailKeyPrefix (config d) @ messageId m;
                    l1 = [Log Info (''Fetching email at s3://'' @ bucket @ ''/'' @ key),
                          S3Copy bucket key]
                in case s3_copy ev bucket key of
                     Inl err \<Rightarrow>
                       (Inl (Error ''Error: Could not make readable copy of email.''),
                        l1 @ [Log ErrorLevel ''copyObject() returned error:''])
                   | Inr u \<Rightarrow>
                       (case s3_get ev bucket key of
                          GetFailed err \<Rightarrow>
                            (Inl (Error ''Error: Failed to load message body from S3.''),
                             l1 @ [S3Get bucket key,
                                   Log ErrorLevel ''getObject() returned error:''])
                        | BodyFailed err \<Rightarrow> (Inl err, l1 @ [S3Get bucket key])
                        | Body text \<Rightarrow>
                            (Inr (Ctx (d\<lparr>emailData := Some text\<rparr>)),
                             l1 @ [S3Get bucket key])))))"

definition processMessage :: step where
  "processMessage v =
     (case v of
        Undefined \<Rightarrow> (Inl (undefined_read ''emailData''), [])
      | Ctx d \<Rightarrow>
          (case emailData d of
             None \<Rightarrow> (Inl (undefined_read ''match''), [])
           | Some text \<Rightarrow>
               (let header = split_header text
                in (Inr (Ctx (d\<lparr>emailData :=
                                Some (rewrite (config d) (originalRecipient d) text)\<rparr>)),
                    if re_test reply_to_re header then []
                    else if from_value header \<noteq> []
                    then [Log Info (''Added Reply-To address of: '' @ from_value header)]
                    else [Log Info (''Reply-To address not added because From address '' @
                                    ''was not properly extracted.'')]))))"

definition sendMessage :: "env \<Rightarrow> step" where
  "sendMessage ev v =
     (case v of
        Undefined \<Rightarrow> (Inl (undefined_read ''recipients''), [])
      | Ctx d \<Rightarrow>
          (case (emailData d, originalRecipients d, recipients d) of
             (Some text, Some origs, Some rs) \<Rightarrow>
               (let l1 = [Log Info (''sendMessage: Sending email via SES. '' @
                                    ''Original recipients: '' @ join '', '' origs @
                                    ''. Transformed recipients: '' @ join '', '' rs @ ''.''),
                          SesSend rs (originalRecipient d) text]
                in case ses_send ev rs (originalRecipient d) text of
                     Inl err \<Rightarrow>
                       (Inl (Error ''Error: Email sending failed.''),
                        l1 @ [Log ErrorLevel ''sendRawEmail() returned error.''])
                   | Inr u \<Rightarrow> (Inr (Ctx d), l1 @ [Log Info ''sendRawEmail() successful.'']))
           | (None, _, _) \<Rightarrow> (Inl (TypeError (''The first argument must be of type string or an instance '' @
                                  ''of Buffer, ArrayBuffer, or Array or an Array-like Object. '' @
                                  ''Received undefined'')), [])
           | (_, None, _) \<Rightarrow> (Inl (undefined_read ''join''), [])
           | (_, _, None) \<Rightarrow> (Inl (undefined_read ''join''), [])))"

text \<open>
  \<^verbatim>\<open>Promise.series\<close>: the steps are chained with \<^verbatim>\<open>then\<close> from the resolved initial
  value. A step runs on the value its predecessor resolved with; after a rejection no
  later step runs. An item that is no function rejects the chain.
\<close>

datatype item = Fn step | NotFn string

fun then_item :: "outcome \<Rightarrow> item \<Rightarrow> outcome" where
  "then_item (Inl err, tr) it = (Inl err, tr)"
| "then_item (Inr v, tr) (Fn f) = (case f v of (r, es) \<Rightarrow> (r, tr @ es))"
| "then_item (Inr v, tr) (NotFn s) =
     (Inl (Error (''Error: Invalid promise item: '' @ s)), tr)"

definition series :: "item list \<Rightarrow> jsval \<Rightarrow> outcome" where
  "series promises initValue = foldl then_item (Inr initValue, []) promises"

definition step_failed :: "js_error \<Rightarrow> effect list" where
  "step_failed err =
     [Log ErrorLevel (''Step returned error: '' @ message err),
      Callback (Some (Error ''Error: Step returned error.''))]"

text \<open>
  The handler with the default steps: everything the run does, in order. The last
  \<^verbatim>\<open>then\<close> reads \<^verbatim>\<open>log\<close> from the value the chain resolved with, and its failure is
  caught like that of a step.
\<close>

definition steps :: "env \<Rightarrow> item list" where
  "steps ev = [Fn parseEvent, Fn (transformRecipients ev), Fn (fetchMessage ev),
               Fn processMessage, Fn (sendMessage ev)]"

definition settle :: "outcome \<Rightarrow> effect list" where
  "settle out =
     (case out of
        (Inr (Ctx d'), tr) \<Rightarrow>
          tr @ [Log Info ''Process finished successfully.'', Callback None]
      | (Inr Undefined, tr) \<Rightarrow> tr @ step_failed (undefined_read ''log'')
      | (Inl err, tr) \<Rightarrow> tr @ step_failed err)"

definition run :: "item list \<Rightarrow> data \<Rightarrow> effect list" where
  "run promises d = settle (series promises (Ctx d))"

definition handler :: "env \<Rightarrow> config \<Rightarrow> ses_event option \<Rightarrow> effect list" where
  "handler ev cfg e =
     run (steps ev)
       \<lparr>event = e, config = cfg, email = None, recipients = None,
        originalRecipients = None, originalRecipient = None, emailData = None\<rparr>"

section \<open>Notions used to state the properties\<close>

subsection \<open>Recipient resolution\<close>

text \<open>
  The lookup of the specification, to compare the loop body with: the keys tried for a
  normalised address are, in this order, the address itself, the domain suffix from the
  last \<^verbatim>\<open>@\<close> on when there is one, the local part before it when it is not empty, and the
  catch-all key; the first key with a rule decides.
\<close>

definition domain_suffix :: "string \<Rightarrow> string" where
  "domain_suffix k = CHR ''@'' # rev (takeWhile (\<lambda>x. x \<noteq> CHR ''@'') (rev k))"

definition local_part :: "string \<Rightarrow> string" where
  "local_part k =
     (if CHR ''@'' \<in> set k then rev (tl (dropWhile (\<lambda>x. x \<noteq> CHR ''@'') (rev k))) else k)"

definition candidates :: "string \<Rightarrow> string list" where
  "candidates k =
     [k] @ (if CHR ''@'' \<in> set k then [domain_suffix k] else []) @
     (if local_part k \<noteq> [] then [local_part k] else []) @ [''@'']"

definition first_rule :: "(string \<rightharpoonup> string list) \<Rightarrow> string \<Rightarrow> string list option" where
  "first_rule fm k =
     (case find (\<lambda>p. fm p \<noteq> None) (candidates k) of None \<Rightarrow> None | Some p \<Rightarrow> fm p)"

text \<open>
  A recipient produces a match when one of the keys tried for its normalised address has
  a rule; its destinations are those of the first such key. The last match of a list of
  recipients is the last recipient, in the order of the list, that produces a match, and
  the value given when there is none.
\<close>

definition has_rule :: "config \<Rightarrow> string \<Rightarrow> bool" where
  "has_rule cfg origEmail = (first_rule (forwardMapping cfg) (emailKey cfg origEmail) \<noteq> None)"

definition destinations :: "config \<Rightarrow> string \<Rightarrow> string list" where
  "destinations cfg origEmail =
     (case first_rule (forwardMapping cfg) (emailKey cfg origEmail) of
        None \<Rightarrow> []
      | Some ds \<Rightarrow> ds)"

definition last_match :: "config \<Rightarrow> string option \<Rightarrow> string list \<Rightarrow> string option" where
  "last_match cfg orig rs =
     (case find (has_rule cfg) (rev rs) of None \<Rightarrow> orig | Some r \<Rightarrow> Some r)"

text \<open>The \<^verbatim>\<open>Source\<close> of every request to send that a run makes, in order.\<close>

fun send_sources :: "effect list \<Rightarrow> string option list" where
  "send_sources [] = []"
| "send_sources (SesSend ds src raw # es) = src # send_sources es"
| "send_sources (e # es) = send_sources es"

subsection \<open>Concrete configurations and inputs\<close>

definition cfg_rules :: "(string \<rightharpoonup> string list) \<Rightarrow> config" where
  "cfg_rules fm =
     \<lparr>fromEmail = Some ''relay@verified.com'', subjectPrefix = Some ''[FWD] '',
      toEmail = None, emailBucket = ''bucket'', emailKeyPrefix = ''in/'',
      allowPlusSign = True, forwardMapping = fm\<rparr>"

definition rules_two :: "string \<rightharpoonup> string list" where
  "rules_two = [''a@x.com'' \<mapsto> [''one@y.com''], ''b@x.com'' \<mapsto> [''two@y.com'']]"

definition rules_tiers :: "string \<rightharpoonup> string list" where
  "rules_tiers = [''info@x.com'' \<mapsto> [''full@y.com''], ''@x.com'' \<mapsto> [''domain@y.com''],
                  ''info'' \<mapsto> [''user@y.com''], ''@'' \<mapsto> [''fallback@y.com'']]"

definition rules_info :: "string \<rightharpoonup> string list" where
  "rules_info = [''info@x.com'' \<mapsto> [''a@y.com'', ''b@y.com'']]"

text \<open>A table with a rule stored under the name of the method the source calls on it.\<close>

definition rules_shadowed :: "string \<rightharpoonup> string list" where
  "rules_shadowed = [''info@x.com'' \<mapsto> [''a@y.com''], ''hasOwnProperty'' \<mapsto> [''b@y.com'']]"

text \<open>
  The collaborators of a plain run: the store and the mail service succeed, and the
  completion callback returns nothing, as the callback of the hosting runtime does.
\<close>

definition env_ok :: env where
  "env_ok = \<lparr>s3_copy = (\<lambda>bucket key. Inr ()),
             s3_get = (\<lambda>bucket key. Body (''From: a'' @ crlf @ crlf @ ''Body'' @ crlf)),
             ses_send = (\<lambda>destinations source raw. Inr ()),
             callback_ret = Undefined\<rparr>"

definition event_for :: "mail option \<Rightarrow> string list \<Rightarrow> ses_event" where
  "event_for m rs =
     \<lparr>Records = Some [\<lparr>eventSource = Some ''aws:ses'', eventVersion = Some ''1.0'',
                       ses = Some \<lparr>ses_mail = m,
                                  ses_receipt = Some \<lparr>receipt_recipients = Some rs\<rparr>\<rparr>\<rparr>]\<rparr>"

definition event_old_version :: ses_event where
  "event_old_version =
     \<lparr>Records = Some [\<lparr>eventSource = Some ''aws:ses'', eventVersion = Some ''0.9'',
                       ses = Some \<lparr>ses_mail = Some \<lparr>messageId = ''m1''\<rparr>,
                                  ses_receipt = Some \<lparr>receipt_recipients = Some [''info@x.com'']\<rparr>\<rparr>\<rparr>]\<rparr>"

definition fresh :: "config \<Rightarrow> ses_event option \<Rightarrow> data" where
  "fresh cfg e =
     \<lparr>event = e, config = cfg, email = None, recipients = None,
      originalRecipients = None, originalRecipient = None, emailData = None\<rparr>"

subsection \<open>The shape of an event\<close>

text \<open>
  The envelope the validation looks at: exactly one record, with the expected source tag
  and schema version.
\<close>

definition expected_record :: "ses_event option \<Rightarrow> bool" where
  "expected_record ev =
     (case ev of
        None \<Rightarrow> False
      | Some e \<Rightarrow>
          (case Records e of
             None \<Rightarrow> False
           | Some rs \<Rightarrow>
               length rs = 1 \<and> eventSource (hd rs) = Some ''aws:ses'' \<and>
               eventVersion (hd rs) = Some ''1.0''))"

text \<open>
  The shape the specification asks for on top of that: a mail object and a recipient list
  that is not empty.
\<close>

definition has_mail_and_recipients :: "ses_event option \<Rightarrow> bool" where
  "has_mail_and_recipients ev =
     (case ev of
        None \<Rightarrow> False
      | Some e \<Rightarrow>
          (case Records e of
             Some [r] \<Rightarrow>
               (case ses r of
                  None \<Rightarrow> False
                | Some p \<Rightarrow>
                    ses_mail p \<noteq> None \<and>
                    (case ses_receipt p of
                       None \<Rightarrow> False
                     | Some rc \<Rightarrow>
                         (case receipt_recipients rc of
                            None \<Rightarrow> False
                          | Some l \<Rightarrow> l \<noteq> [])))
           | _ \<Rightarrow> False))"

definition is_callback :: "effect \<Rightarrow> bool" where
  "is_callback x = (case x of Callback err \<Rightarrow> True | _ \<Rightarrow> False)"

definition is_request :: "effect \<Rightarrow> bool" where
  "is_request x =
     (case x of S3Copy b k \<Rightarrow> True | S3Get b k \<Rightarrow> True | SesSend ds src raw \<Rightarrow> True
      | _ \<Rightarrow> False)"

definition mail_m1 :: mail where
  "mail_m1 = \<lparr>messageId = ''m1''\<rparr>"

definition record_nomatch :: ses_record where
  "record_nomatch =
     \<lparr>eventSource = Some ''aws:ses'', eventVersion = Some ''1.0'',
      ses = Some \<lparr>ses_mail = Some mail_m1,
                 ses_receipt = Some \<lparr>receipt_recipients = Some [''nomatch@z.com'']\<rparr>\<rparr>\<rparr>"

subsection \<open>Header blocks as lines\<close>

text \<open>
  A header block is read as a list of lines, each a content without line terminators and
  the terminator after it (LF, CR LF, or a lone CR, after which \<^verbatim>\<open>^\<close> matches too).
\<close>

definition is_term :: "string \<Rightarrow> bool" where
  "is_term t = (t = [LF] \<or> t = [CR, LF] \<or> t = [CR])"

definition nl :: "string \<Rightarrow> bool" where
  "nl t = (t = [LF] \<or> t = [CR, LF])"

definition unlines :: "(string \<times> string) list \<Rightarrow> string" where
  "unlines ls = concat (map (\<lambda>lt. fst lt @ snd lt) ls)"

definition wf_line :: "string \<times> string \<Rightarrow> bool" where
  "wf_line lt = (list_all is_dot (fst lt) \<and> is_term (snd lt))"

text \<open>
  A line content begins with a header name, whatever the case of its letters; the value of
  the header is what follows the name and one optional space or tab.
\<close>

fun has_name :: "string \<Rightarrow> string \<Rightarrow> bool" where
  "has_name [] s = True"
| "has_name (a # as) [] = False"
| "has_name (a # as) (x # xs) = (ci a x \<and> has_name as xs)"

definition named :: "string \<Rightarrow> string \<times> string \<Rightarrow> bool" where
  "named name lt = has_name name (fst lt)"

definition header_value :: "string \<Rightarrow> string \<Rightarrow> string" where
  "header_value name l =
     (case drop (length name) l of
        [] \<Rightarrow> []
      | x # v \<Rightarrow> if sp_tab x then v else x # v)"

text \<open>
  A folded continuation line begins with white space, has a character that is not white
  space, and ends with LF or CR LF. What follows a folded header begins a new header (or
  nothing follows).
\<close>

definition folded :: "string \<times> string \<Rightarrow> bool" where
  "folded lt =
     ((case fst lt of [] \<Rightarrow> False | x # xs \<Rightarrow> is_space x \<and> list_ex (\<lambda>y. \<not> is_space y) xs) \<and>
      nl (snd lt))"

definition header_starts :: "string \<Rightarrow> bool" where
  "header_starts s = (case s of [] \<Rightarrow> True | x # xs \<Rightarrow> \<not> is_space x)"

text \<open>What the subject step does to one line, in the words of the specification.\<close>

definition prefix_line :: "string \<Rightarrow> string \<times> string \<Rightarrow> string \<times> string" where
  "prefix_line P lt =
     (if has_name ''subject:'' (fst lt)
      then (''Subject: '' @ P @ header_value ''subject:'' (fst lt), snd lt)
      else lt)"

definition lines_reply :: "(string \<times> string) list" where
  "lines_reply = [(''From: a'', crlf), (''reply-to: b'', crlf)]"

definition lines_fold :: "(string \<times> string) list" where
  "lines_fold = [(''To: b'', crlf), (''From: Jane'', crlf), ('' <jane@x.com>'', crlf),
                 (''Subject: Hi'', crlf)]"

definition lines_subject :: "(string \<times> string) list" where
  "lines_subject = [(''From: a'', crlf), (''SUBJECT:Hi'', crlf), (''subject: again'', crlf)]"

subsection \<open>Auxiliary notions for the proofs about the matcher\<close>

text \<open>
  The expressions that rewrite headers all begin with \<^verbatim>\<open>^\<close> and a header name. The
  repeated part of the two expressions for \<^verbatim>\<open>From:\<close> is \<^verbatim>\<open>(?:\r?\n\s+.*)\<close>.
\<close>

text \<open>
  A matcher moves forward: its result depends on its continuation only at positions with
  no more input left than where it starts.
\<close>

definition forward :: "(cont \<Rightarrow> cont) \<Rightarrow> bool" where
  "forward m =
     (\<forall>k k' c p. (\<forall>c' q. length (snd q) \<le> length (snd p) \<longrightarrow> k c' q = k' c' q) \<longrightarrow>
        m k c p = m k' c p)"

definition anchored :: "string \<Rightarrow> re \<Rightarrow> re" where
  "anchored name X = Seq Bol (Seq (lit_i name) X)"

definition fold_re :: re where
  "fold_re = seqs [Opt (Lit CR), Lit LF, Plus (Cls is_space), Star True (Cls is_dot)]"

definition line_start :: "char option \<Rightarrow> bool" where
  "line_start pr = (case pr of None \<Rightarrow> True | Some x \<Rightarrow> is_lt x)"

definition ends_line :: "string \<Rightarrow> bool" where
  "ends_line s = (case s of [] \<Rightarrow> True | x # xs \<Rightarrow> is_lt x)"

definition plain_name :: "string \<Rightarrow> bool" where
  "plain_name name = (name \<noteq> [] \<and> list_all (\<lambda>a. \<not> ci a LF \<and> \<not> ci a CR) name)"

definition last_of :: "char option \<Rightarrow> string \<Rightarrow> char option" where
  "last_of pr w = (if w = [] then pr else Some (last w))"

definition last_term :: "string \<Rightarrow> (string \<times> string) list \<Rightarrow> string" where
  "last_term t0 conts = (if conts = [] then t0 else snd (last conts))"

definition shift ::
  "string \<Rightarrow> (string \<times> string \<times> caps \<times> string) option \<Rightarrow>
     (string \<times> string \<times> caps \<times> string) option" where
  "shift w r = (case r of None \<Rightarrow> None | Some (sk, mt, c, rest) \<Rightarrow> Some (w @ sk, mt, c, rest))"

subsection \<open>The parts of the expression that splits a message\<close>

text \<open>
  One iteration of the first group of the split expression, \<^verbatim>\<open>.+\r?\n\<close>, and one of the
  second, \<^verbatim>\<open>.*\s+\<close>. A header line, as the first group reads it, is a non-empty text
  without line terminator followed by \<^verbatim>\<open>\n\<close> or \<^verbatim>\<open>\r\n\<close>.
\<close>

definition line_re :: re where
  "line_re = seqs [Plus (Cls is_dot), Opt (Lit CR), Lit LF]"

definition rest_re :: re where
  "rest_re = seqs [Star True (Cls is_dot), Plus (Cls is_space)]"

definition header_line :: "string \<times> string \<Rightarrow> bool" where
  "header_line lt = (fst lt \<noteq> [] \<and> list_all is_dot (fst lt) \<and> nl (snd lt))"

section \<open>Properties of the matcher and of the character classes\<close>

lemma clear_Nil [simp]: "clear [] c = c"
  by (simp add: clear_def)

lemma lower_char_low:
  assumes "(of_char a :: nat) < 65"
  shows "lower_char x = a \<longleftrightarrow> x = a"
proof (cases "(65 \<le> (of_char x :: nat) \<and> (of_char x :: nat) \<le> 90) \<or>
              (192 \<le> (of_char x :: nat) \<and> (of_char x :: nat) \<le> 222 \<and> (of_char x :: nat) \<noteq> 215)")
  case True
  then have l: "lower_char x = char_of ((of_char x :: nat) + 32)"
    by (simp add: lower_char_def Let_def)
  have "(of_char (lower_char x) :: nat) = ((of_char x :: nat) + 32) mod 256"
    unfolding l by simp
  also have "\<dots> = (of_char x :: nat) + 32" using True by auto
  finally have "(of_char (lower_char x) :: nat) \<ge> 97" using True by auto
  with assms have "lower_char x \<noteq> a" by auto
  moreover from True assms have "x \<noteq> a" by auto
  ultimately show ?thesis by simp
next
  case False
  then have "lower_char x = x" by (auto simp add: lower_char_def Let_def)
  then show ?thesis by simp
qed

lemma lower_char_plus [simp]: "lower_char x = CHR ''+'' \<longleftrightarrow> x = CHR ''+''"
  by (rule lower_char_low) simp

lemma lower_char_at [simp]: "lower_char x = CHR ''@'' \<longleftrightarrow> x = CHR ''@''"
  by (rule lower_char_low) simp

lemma lower_char_LF [simp]: "lower_char x = LF \<longleftrightarrow> x = LF"
  by (rule lower_char_low) (simp add: LF_def)

lemma lower_char_CR [simp]: "lower_char x = CR \<longleftrightarrow> x = CR"
  by (rule lower_char_low) (simp add: CR_def)

lemma lower_char_fix [simp]:
  "lower_char CHR ''+'' = CHR ''+''" "lower_char CHR ''@'' = CHR ''@''"
  by simp_all

lemma is_dot_lower [simp]: "is_dot (lower_char x) = is_dot x"
  by (simp add: is_dot_def is_lt_def)

subsection \<open>The repetition never runs out of iterations\<close>

text \<open>
  The matcher of every expression moves forward, so the count of iterations that
  \<open>rmatch\<close> gives to a repetition, one more than the length of the input left, is
  enough: any larger count gives the same result.
\<close>

lemma forwardD:
  "forward m \<Longrightarrow> (\<And>c' q. length (snd q) \<le> length (snd p) \<Longrightarrow> k c' q = k' c' q) \<Longrightarrow>
     m k c p = m k' c p"
  unfolding forward_def by blast

lemma forwardI:
  "(\<And>k k' c p. (\<And>c' q. length (snd q) \<le> length (snd p) \<Longrightarrow> k c' q = k' c' q) \<Longrightarrow>
      m k c p = m k' c p) \<Longrightarrow> forward m"
  unfolding forward_def by blast

lemma repeat_agree:
  assumes "forward m"
  shows "(\<And>c' q. length (snd q) \<le> length (snd p) \<Longrightarrow> k c' q = k' c' q) \<Longrightarrow>
           repeat g js m n k c p = repeat g js m n k' c p"
proof (induction n arbitrary: c p)
  case 0
  then show ?case by simp
next
  case (Suc n)
  let ?d = "\<lambda>k c' q. if length (snd q) = length (snd p) then None else repeat g js m n k c' q"
  have "?d k c' q = ?d k' c' q" if "length (snd q) \<le> length (snd p)" for c' q
    using Suc.IH [of q c'] Suc.prems that by simp
  then have "m (?d k) (clear js c) p = m (?d k') (clear js c) p"
    by (rule forwardD [OF assms])
  moreover have "k c p = k' c p" using Suc.prems by simp
  ultimately show ?case by (simp add: Let_def split: option.splits)
qed

lemma repeat_fuel:
  assumes "forward m"
  shows "length (snd p) < n \<Longrightarrow> length (snd p) < n' \<Longrightarrow>
           repeat g js m n k c p = repeat g js m n' k c p"
proof (induction n arbitrary: n' c p)
  case 0
  then show ?case by simp
next
  case (Suc n)
  from Suc.prems(2) obtain n'' where n': "n' = Suc n''" by (cases n') auto
  let ?d = "\<lambda>n c' q. if length (snd q) = length (snd p) then None else repeat g js m n k c' q"
  have "?d n c' q = ?d n'' c' q" if "length (snd q) \<le> length (snd p)" for c' q
  proof (cases "length (snd q) = length (snd p)")
    case True
    then show ?thesis by simp
  next
    case False
    with that Suc.prems n' have "length (snd q) < n" "length (snd q) < n''" by simp_all
    from Suc.IH [OF this] False show ?thesis by simp
  qed
  then have "m (?d n) (clear js c) p = m (?d n'') (clear js c) p"
    by (rule forwardD [OF assms])
  then show ?case by (simp add: n' Let_def split: option.splits)
qed

lemma rmatch_forward: "forward (rmatch r)"
proof (induction r)
  case (Cls P)
  show ?case by (rule forwardI) (auto split: list.splits)
next
  case Bol
  show ?case by (rule forwardI) (auto split: option.splits)
next
  case Eps
  show ?case by (rule forwardI) simp
next
  case (Seq a b)
  show ?case
  proof (rule forwardI)
    fix k k' :: cont and c :: caps and p :: pos
    assume a: "\<And>c' q. length (snd q) \<le> length (snd p) \<Longrightarrow> k c' q = k' c' q"
    have "rmatch b k c' q = rmatch b k' c' q" if "length (snd q) \<le> length (snd p)" for c' q
      by (rule forwardD [OF Seq.IH(2)]) (use a that in simp)
    then have "rmatch a (rmatch b k) c p = rmatch a (rmatch b k') c p"
      by (rule forwardD [OF Seq.IH(1)])
    then show "rmatch (Seq a b) k c p = rmatch (Seq a b) k' c p" by simp
  qed
next
  case (Alt a b)
  show ?case
  proof (rule forwardI)
    fix k k' :: cont and c :: caps and p :: pos
    assume a: "\<And>c' q. length (snd q) \<le> length (snd p) \<Longrightarrow> k c' q = k' c' q"
    have "rmatch a k c p = rmatch a k' c p" "rmatch b k c p = rmatch b k' c p"
      by (rule forwardD [OF Alt.IH(1)], fact a, rule forwardD [OF Alt.IH(2)], fact a)
    then show "rmatch (Alt a b) k c p = rmatch (Alt a b) k' c p"
      by (simp split: option.splits)
  qed
next
  case (Star g a)
  show ?case
  proof (rule forwardI)
    fix k k' :: cont and c :: caps and p :: pos
    assume a: "\<And>c' q. length (snd q) \<le> length (snd p) \<Longrightarrow> k c' q = k' c' q"
    from repeat_agree [OF Star.IH, of p k k', OF a]
    show "rmatch (Star g a) k c p = rmatch (Star g a) k' c p"
      by (simp del: repeat.simps)
  qed
next
  case (Grp i a)
  show ?case
  proof (rule forwardI)
    fix k k' :: cont and c :: caps and p :: pos
    assume a: "\<And>c' q. length (snd q) \<le> length (snd p) \<Longrightarrow> k c' q = k' c' q"
    have "rmatch a (\<lambda>c' q. k (c'(i \<mapsto> captured p q)) q) c p =
          rmatch a (\<lambda>c' q. k' (c'(i \<mapsto> captured p q)) q) c p"
      by (rule forwardD [OF Grp.IH]) (use a in simp)
    then show "rmatch (Grp i a) k c p = rmatch (Grp i a) k' c p" by simp
  qed
qed

lemma star_fuel:
  "length (snd p) < n \<Longrightarrow> rmatch (Star g a) k c p = repeat g (grps a) (rmatch a) n k c p"
  using repeat_fuel [OF rmatch_forward, of p "Suc (length (snd p))" n g "grps a" a k c]
  by (simp del: repeat.simps)

subsection \<open>The lazy repetition of \<^verbatim>\<open>/\+.*?@/\<close>\<close>

lemma repeat_lazy_until:
  assumes "\<forall>x\<in>set tag. P x \<and> x \<noteq> a" and "length tag < n" and "k c (Some a, d) = Some r"
  shows "repeat False [] (rmatch (Cls P)) n (rmatch (Lit a) k) c (pr, tag @ a # d) = Some r"
  using assms
proof (induction tag arbitrary: n pr)
  case Nil
  then obtain n' where "n = Suc n'" by (cases n) auto
  with Nil show ?case by (simp add: Lit_def)
next
  case (Cons x tag)
  then obtain n' where n: "n = Suc n'" by (cases n) auto
  with Cons.prems have "length tag < n'" by simp
  from Cons.IH [OF _ this Cons.prems(3)] Cons.prems(1)
  have "repeat False [] (rmatch (Cls P)) n' (rmatch (Lit a) k) c (Some x, tag @ a # d) = Some r"
    by simp
  with Cons.prems(1) show ?case by (simp add: n Lit_def)
qed

lemma star_lazy_until:
  assumes "\<forall>x\<in>set tag. P x \<and> x \<noteq> a" and "k c (Some a, d) = Some r"
  shows "rmatch (Star False (Cls P)) (rmatch (Lit a) k) c (pr, tag @ a # d) = Some r"
proof -
  have "length tag < Suc (length (tag @ a # d))" by simp
  from repeat_lazy_until [of tag P a _ k c d r pr, OF assms(1) this assms(2)] show ?thesis
    by (simp del: repeat.simps)
qed

lemma match_at_plus_re:
  assumes "\<forall>x\<in>set tag. is_dot x \<and> x \<noteq> CHR ''@''"
  shows "match_at plus_re (pr, CHR ''+'' # tag @ CHR ''@'' # d) = Some (\<lambda>i. None, (Some CHR ''@'', d))"
proof -
  have "rmatch (Star False (Cls is_dot)) (rmatch (Lit CHR ''@'') (\<lambda>c q. Some (c, q))) (\<lambda>i. None)
          (Some CHR ''+'', tag @ CHR ''@'' # d) = Some (\<lambda>i. None, (Some CHR ''@'', d))"
    by (rule star_lazy_until [OF assms]) simp
  then show ?thesis
    by (simp add: match_at_def plus_re_def Lit_def del: rmatch.simps(6))
qed

lemma match_at_plus_re_fail:
  "x \<noteq> CHR ''+'' \<Longrightarrow> match_at plus_re (pr, x # xs) = None"
  by (simp add: match_at_def plus_re_def Lit_def)

lemma exec_plus_re:
  assumes "CHR ''+'' \<notin> set u" and "\<forall>x\<in>set tag. is_dot x \<and> x \<noteq> CHR ''@''"
  shows "\<exists>c. exec plus_re pr (u @ CHR ''+'' # tag @ CHR ''@'' # d) =
           Some (u, CHR ''+'' # tag @ ''@'', c, d)"
  using assms(1)
proof (induction u arbitrary: pr)
  case Nil
  show ?case by (simp add: match_at_plus_re [OF assms(2)] captured_def)
next
  case (Cons x u)
  then have "x \<noteq> CHR ''+''" "CHR ''+'' \<notin> set u" by auto
  from Cons.IH [OF this(2), of "Some x"] obtain c where
    "exec plus_re (Some x) (u @ CHR ''+'' # tag @ CHR ''@'' # d) = Some (u, CHR ''+'' # tag @ ''@'', c, d)"
    by blast
  with \<open>x \<noteq> CHR ''+''\<close> show ?case by (simp add: match_at_plus_re_fail)
qed

lemma emailKey_plus:
  assumes "allowPlusSign cfg" and "CHR ''+'' \<notin> set user"
    and "\<forall>x\<in>set tag. is_dot x \<and> x \<noteq> CHR ''@''"
  shows "emailKey cfg (user @ ''+'' @ tag @ ''@'' @ domain) = toLowerCase (user @ ''@'' @ domain)"
proof -
  have 1: "CHR ''+'' \<notin> set (toLowerCase user)"
    using assms(2) lower_char_plus unfolding toLowerCase_def set_map image_iff by metis
  have 2: "\<forall>x\<in>set (toLowerCase tag). is_dot x \<and> x \<noteq> CHR ''@''"
    using assms(3) by (simp add: toLowerCase_def)
  have l: "toLowerCase (user @ ''+'' @ tag @ ''@'' @ domain) =
        toLowerCase user @ CHR ''+'' # toLowerCase tag @ CHR ''@'' # toLowerCase domain"
    by (simp add: toLowerCase_def)
  from exec_plus_re [OF 1 2, of None "toLowerCase domain"] obtain c where
    "exec plus_re None (toLowerCase user @ CHR ''+'' # toLowerCase tag @ CHR ''@'' # toLowerCase domain)
      = Some (toLowerCase user, CHR ''+'' # toLowerCase tag @ ''@'', c, toLowerCase domain)"
    by blast
  then show ?thesis
    using assms(1) unfolding emailKey_def l by (simp add: replace_first_def toLowerCase_def)
qed

section \<open>Recipient resolution\<close>

lemma hasOwnProperty_plain:
  "m ''hasOwnProperty'' = None \<Longrightarrow> hasOwnProperty m k = Inr (m k \<noteq> None)"
  by (simp add: hasOwnProperty_def)

lemma hasOwnProperty_shadowed:
  "m ''hasOwnProperty'' \<noteq> None \<Longrightarrow> hasOwnProperty m k = Inl not_a_function"
  by (simp add: hasOwnProperty_def)

text \<open>
  With a rule stored under the key \<^verbatim>\<open>hasOwnProperty\<close>, the first test of the loop body
  throws, whatever the recipient: the loop fails at its first recipient, and the step is
  rejected with that error.
\<close>

lemma forEachRecipient_shadowed:
  "forwardMapping cfg ''hasOwnProperty'' \<noteq> None \<Longrightarrow>
     forEachRecipient cfg st r = Inl not_a_function"
  by (simp add: forEachRecipient_def hasOwnProperty_shadowed Let_def)

lemma resolve_shadowed:
  "forwardMapping cfg ''hasOwnProperty'' \<noteq> None \<Longrightarrow>
     resolve cfg orig rs = (if rs = [] then Inr ([], orig) else Inl not_a_function)"
  by (cases rs) (simp_all add: resolve_def forEachRecipient_shadowed)

lemma shadowed_run:
  "handler env_ok (cfg_rules rules_shadowed) (Some (event_for (Some mail_m1) [''info@x.com''])) =
     [Log ErrorLevel
        ''Step returned error: data.config.forwardMapping.hasOwnProperty is not a function'',
      Callback (Some (Error ''Error: Step returned error.''))]"
  by code_simp

lemma lastIndexOf_None: "lastIndexOf xs a = None \<longleftrightarrow> a \<notin> set xs"
  by (induction xs) (auto split: option.splits)

lemma lastIndexOf_Some:
  "lastIndexOf xs a = Some i \<Longrightarrow> \<exists>ys zs. xs = ys @ a # zs \<and> a \<notin> set zs \<and> i = length ys"
proof (induction xs arbitrary: i)
  case Nil
  then show ?case by simp
next
  case (Cons x xs)
  show ?case
  proof (cases "lastIndexOf xs a")
    case None
    with Cons.prems have "x = a" "i = 0" by (auto split: if_splits)
    moreover from None have "a \<notin> set xs" by (simp add: lastIndexOf_None)
    ultimately show ?thesis by (intro exI [of _ "[]"] exI [of _ xs]) simp
  next
    case (Some j)
    with Cons.prems have i: "i = Suc j" by simp
    from Cons.IH [OF Some] obtain ys zs where "xs = ys @ a # zs" "a \<notin> set zs" "j = length ys"
      by blast
    with i show ?thesis by (intro exI [of _ "x # ys"] exI [of _ zs]) simp
  qed
qed

lemma takeWhile_until: "a \<notin> set xs \<Longrightarrow> takeWhile (\<lambda>x. x \<noteq> a) (xs @ a # w) = xs"
  by (induction xs) auto

lemma dropWhile_until: "a \<notin> set xs \<Longrightarrow> dropWhile (\<lambda>x. x \<noteq> a) (xs @ a # w) = a # w"
  by (induction xs) auto

lemma last_at_split:
  assumes "a \<notin> set zs"
  shows "rev (takeWhile (\<lambda>x. x \<noteq> a) (rev (ys @ a # zs))) = zs"
    and "rev (tl (dropWhile (\<lambda>x. x \<noteq> a) (rev (ys @ a # zs)))) = ys"
  using assms by (simp_all add: takeWhile_until dropWhile_until)

lemma forEachRecipient_first_rule:
  assumes "forwardMapping cfg ''hasOwnProperty'' = None"
  shows "forEachRecipient cfg st r =
     Inr (case first_rule (forwardMapping cfg) (emailKey cfg r) of
            None \<Rightarrow> st
          | Some ds \<Rightarrow> (fst st @ ds, Some r))"
proof -
  have h: "hasOwnProperty (forwardMapping cfg) k = Inr (forwardMapping cfg k \<noteq> None)" for k
    using assms by (simp add: hasOwnProperty_def)
  show ?thesis
  proof (cases "lastIndexOf (emailKey cfg r) CHR ''@''")
  case None
  then have "CHR ''@'' \<notin> set (emailKey cfg r)" by (simp add: lastIndexOf_None)
  with None show ?thesis
    by (auto simp: forEachRecipient_def first_rule_def candidates_def local_part_def Let_def
        h get_prop_def truthy_def split: option.splits)
next
  case (Some i)
  then obtain ys zs where k: "emailKey cfg r = ys @ CHR ''@'' # zs" "CHR ''@'' \<notin> set zs" "i = length ys"
    by (blast dest: lastIndexOf_Some)
  have d: "domain_suffix (emailKey cfg r) = CHR ''@'' # zs" "local_part (emailKey cfg r) = ys"
    using k last_at_split [of "CHR ''@''" zs ys] by (simp_all add: domain_suffix_def local_part_def)
  have e: "drop i (emailKey cfg r) = CHR ''@'' # zs" "take i (emailKey cfg r) = ys"
    using k by simp_all
  show ?thesis
    using Some d e k(1)
    by (auto simp: forEachRecipient_def first_rule_def candidates_def Let_def
        h get_prop_def truthy_def str_def split: option.splits)
qed
qed

lemma forEachRecipient_full:
  "forwardMapping cfg ''hasOwnProperty'' = None \<Longrightarrow>
   forwardMapping cfg (emailKey cfg r) = Some ds \<Longrightarrow>
     forEachRecipient cfg st r = Inr (fst st @ ds, Some r)"
  by (simp add: forEachRecipient_first_rule first_rule_def candidates_def)

lemma forEachRecipient_rule:
  assumes "forwardMapping cfg ''hasOwnProperty'' = None"
  shows "forEachRecipient cfg (acc, orig) r =
     Inr (acc @ destinations cfg r, if has_rule cfg r then Some r else orig)"
  by (simp add: forEachRecipient_first_rule [OF assms] destinations_def has_rule_def
      split: option.splits)

lemma last_match_Cons:
  "last_match cfg orig (r # rs) = last_match cfg (if has_rule cfg r then Some r else orig) rs"
proof -
  have "find P (xs @ [x]) =
          (case find P xs of None \<Rightarrow> if P x then Some x else None | Some y \<Rightarrow> Some y)"
    for P and xs :: "string list" and x
    by (induction xs) simp_all
  then show ?thesis by (simp add: last_match_def split: option.splits)
qed

lemma forEach_resolve:
  assumes "forwardMapping cfg ''hasOwnProperty'' = None"
  shows "forEach (forEachRecipient cfg) (acc, orig) rs =
     Inr (acc @ concat (map (destinations cfg) rs), last_match cfg orig rs)"
proof (induction rs arbitrary: acc orig)
  case Nil
  show ?case by (simp add: last_match_def)
next
  case (Cons r rs)
  show ?case
    by (simp only: forEach.simps forEachRecipient_rule [OF assms] sum.case Cons.IH
        last_match_Cons list.map concat.simps append_assoc)
qed

lemma resolve_plain:
  "forwardMapping cfg ''hasOwnProperty'' = None \<Longrightarrow>
     resolve cfg orig rs = Inr (concat (map (destinations cfg) rs), last_match cfg orig rs)"
  by (simp add: resolve_def forEach_resolve)

text \<open>
  A run that forwards: the event is valid and carries a mail object, the resolution gives
  destinations, and the store returns the message. The run then makes one request to
  send, and its \<^verbatim>\<open>Source\<close> is the original recipient that the resolution recorded.
\<close>

lemma send_sources_append: "send_sources (xs @ ys) = send_sources xs @ send_sources ys"
  by (induction xs rule: send_sources.induct) simp_all

lemma forward_run_sources:
  assumes "resolve cfg None rs = Inr (ds, orig)" and "ds \<noteq> []"
    and "s3_copy ev (emailBucket cfg) (emailKeyPrefix cfg @ messageId m) = Inr ()"
    and "s3_get ev (emailBucket cfg) (emailKeyPrefix cfg @ messageId m) = Body text"
  shows "send_sources (handler ev cfg (Some (event_for (Some m) rs))) = [orig]"
proof -
  let ?d1 = "(fresh cfg (Some (event_for (Some m) rs)))\<lparr>email := Some m, recipients := Some rs\<rparr>"
  let ?d2 = "?d1\<lparr>originalRecipients := Some rs, originalRecipient := orig, recipients := Some ds\<rparr>"
  let ?d3 = "?d2\<lparr>emailData := Some text\<rparr>"
  let ?d4 = "?d3\<lparr>emailData := Some (rewrite cfg orig text)\<rparr>"
  have 1: "parseEvent (Ctx (fresh cfg (Some (event_for (Some m) rs)))) = (Inr (Ctx ?d1), [])"
    by (simp add: parseEvent_def fresh_def event_for_def)
  have 2: "transformRecipients ev (Ctx ?d1) = (Inr (Ctx ?d2), [])"
    using assms(1,2) by (simp add: transformRecipients_def fresh_def)
  have 3: "fetchMessage ev (Ctx ?d2) =
             (Inr (Ctx ?d3),
              [Log Info (''Fetching email at s3://'' @ emailBucket cfg @ ''/'' @
                         emailKeyPrefix cfg @ messageId m),
               S3Copy (emailBucket cfg) (emailKeyPrefix cfg @ messageId m),
               S3Get (emailBucket cfg) (emailKeyPrefix cfg @ messageId m)])"
    using assms(3,4) by (simp add: fetchMessage_def fresh_def Let_def)
  obtain l where 4: "processMessage (Ctx ?d3) = (Inr (Ctx ?d4), l)" and l: "send_sources l = []"
    by (simp add: processMessage_def fresh_def Let_def)
  obtain out tr where 5: "sendMessage ev (Ctx ?d4) = (out, tr)" and tr: "send_sources tr = [orig]"
    by (cases "ses_send ev ds orig (rewrite cfg orig text)")
       (simp_all add: sendMessage_def fresh_def Let_def)
  have s: "send_sources (settle (out, xs)) = send_sources xs" for xs
    by (cases out; cases "projr out")
       (auto simp: settle_def step_failed_def send_sources_append split: sum.splits jsval.splits)
  show ?thesis
    using 1 2 3 4 5 l tr
    by (simp add: handler_def run_def series_def steps_def fresh_def s send_sources_append
        del: settle_def)
qed

text \<open>
  Claim C1, as the specification states it, fails: with a rule for each of two recipients,
  the recipient recorded is the second one, while the first recipient that matches is the
  first one.
\<close>

theorem chosen_original_not_first:
  "resolve (cfg_rules rules_two) None [''a@x.com'', ''b@x.com''] =
     Inr ([''one@y.com'', ''two@y.com''], Some ''b@x.com'') \<and>
   find (has_rule (cfg_rules rules_two)) [''a@x.com'', ''b@x.com''] = Some ''a@x.com''"
  by code_simp

text \<open>
  Claim C1, amended: for every list of original recipients and every rule table that has
  no rule stored under the key \<^verbatim>\<open>hasOwnProperty\<close>, the original recipient recorded by the
  resolution is the last recipient, in input order, that produced a match (when none
  matches, the value recorded before is kept); and in a run that forwards the message,
  the \<^verbatim>\<open>Source\<close> of the request to send is that recipient.
\<close>

theorem chosen_original_is_last_match:
  assumes "forwardMapping cfg ''hasOwnProperty'' = None"
  shows "resolve cfg orig rs =
           Inr (concat (map (destinations cfg) rs), last_match cfg orig rs) \<and>
         (concat (map (destinations cfg) rs) \<noteq> [] \<and>
          s3_copy ev (emailBucket cfg) (emailKeyPrefix cfg @ messageId m) = Inr () \<and>
          s3_get ev (emailBucket cfg) (emailKeyPrefix cfg @ messageId m) = Body text \<longrightarrow>
            send_sources (handler ev cfg (Some (event_for (Some m) rs))) =
              [last_match cfg None rs])"
  using forward_run_sources [OF resolve_plain [OF assms]] resolve_plain [OF assms] by blast

theorem chosen_original_is_last_match_witness:
  "forwardMapping (cfg_rules rules_two) ''hasOwnProperty'' = None \<and>
   resolve (cfg_rules rules_two) None [''a@x.com'', ''b@x.com''] =
     Inr ([''one@y.com'', ''two@y.com''], Some ''b@x.com'') \<and>
   send_sources (handler env_ok (cfg_rules rules_two)
                   (Some (event_for (Some mail_m1) [''a@x.com'', ''b@x.com'']))) =
     [Some ''b@x.com'']"
proof -
  have h: "forwardMapping (cfg_rules rules_two) ''hasOwnProperty'' = None" by code_simp
  have d: "concat (map (destinations (cfg_rules rules_two)) [''a@x.com'', ''b@x.com'']) =
             [''one@y.com'', ''two@y.com'']"
    by code_simp
  have l: "last_match (cfg_rules rules_two) None [''a@x.com'', ''b@x.com''] = Some ''b@x.com''"
    by code_simp
  have c: "s3_copy env_ok (emailBucket (cfg_rules rules_two))
             (emailKeyPrefix (cfg_rules rules_two) @ messageId mail_m1) = Inr ()"
    by (simp add: env_ok_def)
  have g: "s3_get env_ok (emailBucket (cfg_rules rules_two))
             (emailKeyPrefix (cfg_rules rules_two) @ messageId mail_m1) =
           Body (''From: a'' @ crlf @ crlf @ ''Body'' @ crlf)"
    by (simp add: env_ok_def)
  note t = chosen_original_is_last_match [OF h, of None "[''a@x.com'', ''b@x.com'']" env_ok mail_m1
      "''From: a'' @ crlf @ crlf @ ''Body'' @ crlf"]
  from conjunct1 [OF t] d l
  have r: "resolve (cfg_rules rules_two) None [''a@x.com'', ''b@x.com''] =
     Inr ([''one@y.com'', ''two@y.com''], Some ''b@x.com'')"
    by simp
  from d have n: "concat (map (destinations (cfg_rules rules_two)) [''a@x.com'', ''b@x.com'']) \<noteq> []"
    by simp
  from mp [OF conjunct2 [OF t] conjI [OF n conjI [OF c g]]] l
  have "send_sources (handler env_ok (cfg_rules rules_two)
                   (Some (event_for (Some mail_m1) [''a@x.com'', ''b@x.com'']))) =
     [Some ''b@x.com'']"
    by simp
  with h r show ?thesis by simp
qed

text \<open>
  Claim C2, as the specification states it for every rule table, fails for a table that
  holds a rule under the key \<^verbatim>\<open>hasOwnProperty\<close> (a key outside the documented form of the
  keys, which are lower-case addresses, domains and mailbox names): the rule for the full
  address is there, and it is not chosen, since the first test of the loop body throws.
\<close>

theorem full_address_rule_not_reached:
  "forwardMapping (cfg_rules rules_shadowed) (emailKey (cfg_rules rules_shadowed) ''info@x.com'') =
     Some [''a@y.com''] \<and>
   forEachRecipient (cfg_rules rules_shadowed) ([], None) ''info@x.com'' =
     Inl (TypeError ''data.config.forwardMapping.hasOwnProperty is not a function'') \<and>
   resolve (cfg_rules rules_shadowed) None [''info@x.com''] =
     Inl (TypeError ''data.config.forwardMapping.hasOwnProperty is not a function'')"
  by code_simp

text \<open>
  Claim C2, amended: for every recipient and every rule table without a rule stored under
  the key \<^verbatim>\<open>hasOwnProperty\<close>, the loop body looks the normalised address up in strict
  precedence order and stops at the first success: the full address, then the domain
  suffix when the address contains \<^verbatim>\<open>@\<close>, then the local part, then the catch-all key.
  In particular a rule for the full address is the one chosen whatever other rules there
  are.
\<close>

theorem resolution_precedence:
  assumes "forwardMapping cfg ''hasOwnProperty'' = None"
  shows "forEachRecipient cfg st r =
           Inr (case first_rule (forwardMapping cfg) (emailKey cfg r) of
                  None \<Rightarrow> st
                | Some ds \<Rightarrow> (fst st @ ds, Some r)) \<and>
         (forwardMapping cfg (emailKey cfg r) = Some ds \<longrightarrow>
            forEachRecipient cfg st r = Inr (fst st @ ds, Some r))"
proof
  show "forEachRecipient cfg st r =
     Inr (case first_rule (forwardMapping cfg) (emailKey cfg r) of
            None \<Rightarrow> st
          | Some ds \<Rightarrow> (fst st @ ds, Some r))"
    by (rule forEachRecipient_first_rule [OF assms])
  show "forwardMapping cfg (emailKey cfg r) = Some ds \<longrightarrow>
      forEachRecipient cfg st r = Inr (fst st @ ds, Some r)"
    by (simp add: forEachRecipient_full [OF assms])
qed

theorem resolution_precedence_witness:
  "forwardMapping (cfg_rules rules_tiers) ''hasOwnProperty'' = None \<and>
   forwardMapping (cfg_rules rules_tiers) (emailKey (cfg_rules rules_tiers) ''Info@X.com'') =
     Some [''full@y.com''] \<and>
   first_rule rules_tiers ''info@x.com'' = Some [''full@y.com''] \<and>
   forEachRecipient (cfg_rules rules_tiers) ([], None) ''Info@X.com'' =
     Inr ([''full@y.com''], Some ''Info@X.com'')"
proof -
  have n: "forwardMapping (cfg_rules rules_tiers) ''hasOwnProperty'' = None" by code_simp
  have h: "forwardMapping (cfg_rules rules_tiers) (emailKey (cfg_rules rules_tiers) ''Info@X.com'') =
     Some [''full@y.com'']"
    by code_simp
  have f: "first_rule rules_tiers ''info@x.com'' = Some [''full@y.com'']"
    by code_simp
  from mp [OF conjunct2 [OF resolution_precedence [OF n]] h, of "([], None)"]
  have "forEachRecipient (cfg_rules rules_tiers) ([], None) ''Info@X.com'' =
     Inr ([''full@y.com''], Some ''Info@X.com'')"
    by simp
  with n h f show ?thesis by simp
qed

text \<open>
  Claim C5: with plus-addressing enabled, an address \<^verbatim>\<open>user+tag@domain\<close> (the user
  without \<^verbatim>\<open>+\<close>, the tag without \<^verbatim>\<open>@\<close> and line breaks) is looked up under the key of
  \<^verbatim>\<open>user@domain\<close>, so that a rule for that key matches it (in a table without a rule
  stored under the key \<^verbatim>\<open>hasOwnProperty\<close>), and the original recipient recorded is the
  address as it came, with its tag.
\<close>

theorem plus_addressing:
  assumes "allowPlusSign cfg" and "CHR ''+'' \<notin> set user"
    and "\<forall>x\<in>set tag. is_dot x \<and> x \<noteq> CHR ''@''"
    and "forwardMapping cfg (toLowerCase (user @ ''@'' @ domain)) = Some ds"
    and "forwardMapping cfg ''hasOwnProperty'' = None"
  shows "emailKey cfg (user @ ''+'' @ tag @ ''@'' @ domain) = toLowerCase (user @ ''@'' @ domain) \<and>
         resolve cfg orig [user @ ''+'' @ tag @ ''@'' @ domain] =
           Inr (ds, Some (user @ ''+'' @ tag @ ''@'' @ domain))"
proof -
  have k: "emailKey cfg (user @ ''+'' @ tag @ ''@'' @ domain) = toLowerCase (user @ ''@'' @ domain)"
    by (rule emailKey_plus [OF assms(1-3)])
  from assms(4) have "forwardMapping cfg (emailKey cfg (user @ ''+'' @ tag @ ''@'' @ domain)) = Some ds"
    by (simp only: k)
  from forEachRecipient_full [OF assms(5) this, of "([], orig)"] k show ?thesis
    by (simp add: resolve_def)
qed

theorem plus_addressing_witness:
  "allowPlusSign (cfg_rules rules_tiers) \<and> CHR ''+'' \<notin> set ''Info'' \<and>
   is_dot CHR ''x'' \<and> CHR ''x'' \<noteq> CHR ''@'' \<and>
   forwardMapping (cfg_rules rules_tiers) (toLowerCase (''Info'' @ ''@'' @ ''x.com'')) =
     Some [''full@y.com''] \<and>
   forwardMapping (cfg_rules rules_tiers) ''hasOwnProperty'' = None \<and>
   emailKey (cfg_rules rules_tiers) ''Info+x@x.com'' = ''info@x.com'' \<and>
   resolve (cfg_rules rules_tiers) None [''Info+x@x.com''] =
     Inr ([''full@y.com''], Some ''Info+x@x.com'')"
proof -
  have h1: "allowPlusSign (cfg_rules rules_tiers)" by (simp add: cfg_rules_def)
  have h2: "CHR ''+'' \<notin> set ''Info''" by simp
  have h3: "\<forall>x\<in>set ''x''. is_dot x \<and> x \<noteq> CHR ''@''"
    by (simp add: is_dot_def is_lt_def LF_def CR_def)
  have h4: "forwardMapping (cfg_rules rules_tiers) (toLowerCase (''Info'' @ ''@'' @ ''x.com'')) =
     Some [''full@y.com'']"
    by code_simp
  have h5: "forwardMapping (cfg_rules rules_tiers) ''hasOwnProperty'' = None" by code_simp
  have l: "toLowerCase (''Info'' @ ''@'' @ ''x.com'') = ''info@x.com''" by code_simp
  from plus_addressing [OF h1 h2 h3 h4 h5, of None] l h1 h2 h3 h4 h5 show ?thesis by simp
qed

section \<open>The steps and the handler\<close>

lemma parseEvent_invalid_iff:
  "parseEvent (Ctx d) = invalid_event \<longleftrightarrow> \<not> expected_record (event d)"
  by (auto simp: parseEvent_def expected_record_def invalid_event_def
      split: option.splits list.splits)

lemma handler_invalid:
  assumes "\<not> expected_record e"
  shows "handler ev cfg e =
       [Log ErrorLevel ''parseEvent() received invalid SES message:'',
        Log ErrorLevel ''Step returned error: Error: Received invalid SES message.'',
        Callback (Some (Error ''Error: Step returned error.''))]"
proof -
  have "parseEvent (Ctx (fresh cfg e)) = invalid_event"
    using assms by (simp add: parseEvent_invalid_iff fresh_def)
  then show ?thesis
    by (simp add: handler_def run_def series_def steps_def settle_def fresh_def
        invalid_event_def step_failed_def)
qed

lemma early_exit:
  assumes "Records e = Some [r]" and "eventSource r = Some ''aws:ses''"
    and "eventVersion r = Some ''1.0''" and "ses r = Some p" and "ses_receipt p = Some rc"
    and "receipt_recipients rc = Some rs" and "resolve cfg None rs = Inr ([], orig)"
  shows "handler ev cfg (Some e) =
     settle (foldl then_item
       (Inr (callback_ret ev),
        [Log Info (''Finishing process. No new recipients found for '' @
                   ''original destinations: '' @ join '', '' rs),
         Callback None])
       [Fn (fetchMessage ev), Fn processMessage, Fn (sendMessage ev)])"
proof -
  have 1: "parseEvent (Ctx (fresh cfg (Some e))) =
      (Inr (Ctx ((fresh cfg (Some e))\<lparr>email := ses_mail p, recipients := Some rs\<rparr>)), [])"
    using assms(1-6) by (simp add: parseEvent_def fresh_def)
  have 2: "transformRecipients ev
             (Ctx ((fresh cfg (Some e))\<lparr>email := ses_mail p, recipients := Some rs\<rparr>)) =
      (Inr (callback_ret ev),
        [Log Info (''Finishing process. No new recipients found for '' @
                   ''original destinations: '' @ join '', '' rs),
         Callback None])"
    using assms(7) by (simp add: transformRecipients_def fresh_def)
  show ?thesis
    using 1 2 by (simp add: handler_def run_def series_def steps_def fresh_def)
qed

text \<open>
  Claim C7, as the specification states it, fails: an event of one record with the
  expected tags, without a mail object and with an empty recipient list, passes the
  validation, and the resolution stage runs after it.
\<close>

theorem validate_accepts_missing_mail:
  "\<not> has_mail_and_recipients (Some (event_for None [])) \<and>
   fst (parseEvent (Ctx (fresh (cfg_rules rules_info) (Some (event_for None []))))) =
     Inr (Ctx ((fresh (cfg_rules rules_info) (Some (event_for None [])))
                \<lparr>email := None, recipients := Some []\<rparr>)) \<and>
   take 2 (handler env_ok (cfg_rules rules_info) (Some (event_for None []))) =
     [Log Info ''Finishing process. No new recipients found for original destinations: '',
      Callback None]"
proof -
  have "take 2 (handler env_ok (cfg_rules rules_info) (Some (event_for None []))) =
     [Log Info ''Finishing process. No new recipients found for original destinations: '',
      Callback None]"
    by code_simp
  then show ?thesis
    by (simp add: has_mail_and_recipients_def event_for_def parseEvent_def fresh_def)
qed

text \<open>
  Claim C7, amended: for every inbound event, the validation fails with the invalid-event
  error, and then no further stage runs (the run logs the error and calls the completion
  callback with an error, nothing else), exactly when the event does not have one single
  record carrying the expected event-source tag and schema version. The mail object and
  the recipient list are not looked at.
\<close>

theorem validate_checks_record_only:
  "(parseEvent (Ctx d) = invalid_event \<longleftrightarrow> \<not> expected_record (event d)) \<and>
   (\<not> expected_record e \<longrightarrow>
      handler ev cfg e =
        [Log ErrorLevel ''parseEvent() received invalid SES message:'',
         Log ErrorLevel ''Step returned error: Error: Received invalid SES message.'',
         Callback (Some (Error ''Error: Step returned error.''))])"
  using parseEvent_invalid_iff handler_invalid by blast

theorem validate_checks_record_only_witness:
  "\<not> expected_record (Some event_old_version) \<and>
   handler env_ok (cfg_rules rules_info) (Some event_old_version) =
     [Log ErrorLevel ''parseEvent() received invalid SES message:'',
      Log ErrorLevel ''Step returned error: Error: Received invalid SES message.'',
      Callback (Some (Error ''Error: Step returned error.''))]"
proof -
  have h: "\<not> expected_record (Some event_old_version)"
    by (simp add: expected_record_def event_old_version_def)
  from mp [OF conjunct2 [OF validate_checks_record_only] h] h show ?thesis by simp
qed

text \<open>
  Claim C6 against the code, on scenario 3 of the specification (one recipient without a
  rule, no catch-all, a callback that returns nothing): the callback is called without an
  error and nothing is requested from the store or the mail service, but the run does not
  end there as a success: the chain goes on, the fetch stage fails on the missing context
  and the callback is called a second time, with an error.
\<close>

theorem no_recipients_run:
  "handler env_ok (cfg_rules rules_info) (Some (event_for (Some mail_m1) [''nomatch@z.com''])) =
     [Log Info ''Finishing process. No new recipients found for original destinations: nomatch@z.com'',
      Callback None,
      Log ErrorLevel (''Step returned error: '' @ message (undefined_read ''log'')),
      Callback (Some (Error ''Error: Step returned error.''))]"
  by code_simp

text \<open>
  Claim C10: when the event is valid and the resolution ends with no destination (the
  early exit of the source; a resolution that throws does not reach it), the
  completion callback is called without an error and the chain of steps goes on from the
  value the callback returned: the fetch, rewrite and send stages are run on it. When that
  value is \<^verbatim>\<open>undefined\<close>, the fetch stage fails on it, before any request to the store,
  and the callback is called a second time, with an error.
\<close>

theorem early_exit_continues:
  assumes "Records e = Some [r]" and "eventSource r = Some ''aws:ses''"
    and "eventVersion r = Some ''1.0''" and "ses r = Some p" and "ses_receipt p = Some rc"
    and "receipt_recipients rc = Some rs" and "resolve cfg None rs = Inr ([], orig)"
  shows "handler ev cfg (Some e) =
           settle (foldl then_item
             (Inr (callback_ret ev),
              [Log Info (''Finishing process. No new recipients found for '' @
                         ''original destinations: '' @ join '', '' rs),
               Callback None])
             [Fn (fetchMessage ev), Fn processMessage, Fn (sendMessage ev)]) \<and>
         (callback_ret ev = Undefined \<longrightarrow>
            handler ev cfg (Some e) =
              [Log Info (''Finishing process. No new recipients found for '' @
                         ''original destinations: '' @ join '', '' rs),
               Callback None,
               Log ErrorLevel (''Step returned error: '' @ message (undefined_read ''log'')),
               Callback (Some (Error ''Error: Step returned error.''))])"
  unfolding early_exit [OF assms]
  by (simp add: fetchMessage_def settle_def step_failed_def)

theorem early_exit_continues_witness:
  "resolve (cfg_rules rules_info) None [''nomatch@z.com''] = Inr ([], None) \<and>
   callback_ret env_ok = Undefined \<and>
   handler env_ok (cfg_rules rules_info) (Some \<lparr>Records = Some [record_nomatch]\<rparr>) =
     [Log Info (''Finishing process. No new recipients found for '' @
                ''original destinations: '' @ join '', '' [''nomatch@z.com'']),
      Callback None,
      Log ErrorLevel (''Step returned error: '' @ message (undefined_read ''log'')),
      Callback (Some (Error ''Error: Step returned error.''))]"
proof -
  have h7: "resolve (cfg_rules rules_info) None [''nomatch@z.com''] = Inr ([], None)"
    by code_simp
  have h8: "callback_ret env_ok = Undefined" by (simp add: env_ok_def)
  have "Records \<lparr>Records = Some [record_nomatch]\<rparr> = Some [record_nomatch]"
    and "eventSource record_nomatch = Some ''aws:ses''"
    and "eventVersion record_nomatch = Some ''1.0''"
    and "ses record_nomatch =
           Some \<lparr>ses_mail = Some mail_m1,
                 ses_receipt = Some \<lparr>receipt_recipients = Some [''nomatch@z.com'']\<rparr>\<rparr>"
    and "ses_receipt \<lparr>ses_mail = Some mail_m1,
                 ses_receipt = Some \<lparr>receipt_recipients = Some [''nomatch@z.com'']\<rparr>\<rparr> =
           Some \<lparr>receipt_recipients = Some [''nomatch@z.com'']\<rparr>"
    and "receipt_recipients \<lparr>receipt_recipients = Some [''nomatch@z.com'']\<rparr> =
           Some [''nomatch@z.com'']"
    by (simp_all add: record_nomatch_def)
  from mp [OF conjunct2 [OF early_exit_continues [OF this h7, of env_ok]] h8] h7 h8
  show ?thesis by simp
qed

section \<open>The header rewrite on concrete messages\<close>

text \<open>
  Claim C3 against the code. On scenario 4 of the specification the body is \<^verbatim>\<open>Body text\<close>
  and the message does not end with white space: the second capture of the split stops
  after the last white space, and the reassembled message ends with \<^verbatim>\<open>Body \<close>. On a
  message with CR LF line ends and no blank line, the split matches between a CR and its
  LF, so that the whole text is the header and the text from that LF on is taken as the
  body again.
\<close>

theorem rewrite_loses_body_tail:
  "rewrite (cfg_rules rules_info) (Some ''info@x.com'')
     (''From: Jane <jane@x.com>'' @ crlf @ ''Subject: Hi'' @ crlf @ crlf @ ''Body text'') =
   ''From: Jane <relay@verified.com>'' @ crlf @ ''Subject: [FWD] Hi'' @ crlf @
   ''Reply-To: Jane <jane@x.com>'' @ crlf @ crlf @ ''Body '' \<and>
   split_header (''From: a'' @ crlf @ ''Subject: b'' @ crlf) =
     ''From: a'' @ crlf @ ''Subject: b'' @ crlf \<and>
   split_body (''From: a'' @ crlf @ ''Subject: b'' @ crlf) = [LF] @ ''Subject: b'' @ crlf"
  by code_simp

text \<open>
  Claim C4 against the code. A folded \<^verbatim>\<open>Sender:\<close>, \<^verbatim>\<open>Return-Path:\<close> or
  \<^verbatim>\<open>Message-ID:\<close> header loses its first line only, and its continuation line stays
  behind; the expression for \<^verbatim>\<open>DKIM-Signature:\<close> takes the continuation lines too.
\<close>

theorem strip_leaves_continuation:
  "stripHeaders (''Sender: a'' @ crlf @ '' folded'' @ crlf @ ''To: c'' @ crlf) =
     '' folded'' @ crlf @ ''To: c'' @ crlf \<and>
   stripHeaders (''Return-Path: a'' @ crlf @ '' folded'' @ crlf @ ''To: c'' @ crlf) =
     '' folded'' @ crlf @ ''To: c'' @ crlf \<and>
   stripHeaders (''Message-ID:'' @ crlf @ '' <id@x.com>'' @ crlf @ ''To: c'' @ crlf) =
     '' <id@x.com>'' @ crlf @ ''To: c'' @ crlf \<and>
   stripHeaders (''DKIM-Signature: a'' @ crlf @ '' folded'' @ crlf @ ''To: c'' @ crlf) =
     ''To: c'' @ crlf"
  by code_simp

text \<open>
  Claim C8 against the code. The expressions for \<^verbatim>\<open>From:\<close> and for
  \<^verbatim>\<open>DKIM-Signature:\<close> find the continuation lines of a header with \<^verbatim>\<open>\s+\<close>, which also
  runs over line breaks: a continuation line of white space only is taken together with
  the line after it. In the first message the \<^verbatim>\<open>From:\<close> header is followed by such a
  line and by the \<^verbatim>\<open>To:\<close> header: the \<^verbatim>\<open>Reply-To:\<close> header appended by the step carries
  the \<^verbatim>\<open>To:\<close> header as well, and so does the rewritten message. In the second message
  such a line follows the \<^verbatim>\<open>DKIM-Signature:\<close> header, the last one: the step appends the
  \<^verbatim>\<open>Reply-To:\<close> header, the removal of the signature takes it away again, and the
  rewritten message has none.
\<close>

theorem reply_to_crosses_lines:
  "addReplyTo (''From: a@x.com'' @ crlf @ '' '' @ crlf @ ''To: b@y.com'' @ crlf @
               ''Subject: s'' @ crlf) =
     ''From: a@x.com'' @ crlf @ '' '' @ crlf @ ''To: b@y.com'' @ crlf @ ''Subject: s'' @ crlf @
     ''Reply-To: a@x.com'' @ crlf @ '' '' @ crlf @ ''To: b@y.com'' @ crlf \<and>
   rewrite (cfg_rules rules_info) (Some ''info@x.com'')
     (''From: a@x.com'' @ crlf @ '' '' @ crlf @ ''To: b@y.com'' @ crlf @ ''Subject: s'' @ crlf @
      crlf @ ''Body'' @ crlf) =
     ''From: a@x.com'' @ crlf @ '' '' @ crlf @ ''To: b@y.com <relay@verified.com>'' @ crlf @
     ''Subject: [FWD] s'' @ crlf @
     ''Reply-To: a@x.com'' @ crlf @ '' '' @ crlf @ ''To: b@y.com'' @ crlf @
     crlf @ ''Body'' @ crlf \<and>
   addReplyTo (''From: a@x.com'' @ crlf @ ''DKIM-Signature: x'' @ crlf @ '' '' @ crlf) =
     ''From: a@x.com'' @ crlf @ ''DKIM-Signature: x'' @ crlf @ '' '' @ crlf @
     ''Reply-To: a@x.com'' @ crlf \<and>
   rewrite (cfg_rules rules_info) (Some ''info@x.com'')
     (''From: a@x.com'' @ crlf @ ''DKIM-Signature: x'' @ crlf @ '' '' @ crlf @
      crlf @ ''Body'' @ crlf) =
     ''From: a@x.com <relay@verified.com>'' @ crlf @ crlf @ ''Body'' @ crlf"
  by code_simp

text \<open>
  Claim C9 against the code, with the prefix \<^verbatim>\<open>[FWD] \<close> configured. In the first message
  a line of white space only stands between the \<^verbatim>\<open>DKIM-Signature:\<close> header and the
  \<^verbatim>\<open>Subject:\<close> header: the subject step puts the prefix, and the removal of the signature
  then takes the \<^verbatim>\<open>Subject:\<close> line away, so that the rewritten message has no subject. In
  the second message such a line stands between the \<^verbatim>\<open>From:\<close> header and the
  \<^verbatim>\<open>Subject:\<close> header: the replacement of the \<^verbatim>\<open>From:\<close> header takes the \<^verbatim>\<open>Subject:\<close>
  line as part of its value, and the subject of the rewritten message ends with the
  address of the relay. Without a prefix configured, the \<^verbatim>\<open>Subject:\<close> line of the first
  message is taken away all the same.
\<close>

theorem subject_line_lost:
  "prefixSubject (cfg_rules rules_info)
     (''From: a@x.com'' @ crlf @ ''DKIM-Signature: x'' @ crlf @ '' '' @ crlf @
      ''Subject: Hi'' @ crlf) =
     ''From: a@x.com'' @ crlf @ ''DKIM-Signature: x'' @ crlf @ '' '' @ crlf @
     ''Subject: [FWD] Hi'' @ crlf \<and>
   rewrite (cfg_rules rules_info) (Some ''info@x.com'')
     (''From: a@x.com'' @ crlf @ ''DKIM-Signature: x'' @ crlf @ '' '' @ crlf @
      ''Subject: Hi'' @ crlf @ crlf @ ''Body'' @ crlf) =
     ''From: a@x.com <relay@verified.com>'' @ crlf @ ''Reply-To: a@x.com'' @ crlf @
     crlf @ ''Body'' @ crlf \<and>
   rewrite (cfg_rules rules_info) (Some ''info@x.com'')
     (''From: a@x.com'' @ crlf @ '' '' @ crlf @ ''Subject: Hi'' @ crlf @ crlf @ ''Body'' @ crlf) =
     ''From: a@x.com'' @ crlf @ '' '' @ crlf @ ''Subject: [FWD] Hi <relay@verified.com>'' @ crlf @
     ''Reply-To: a@x.com'' @ crlf @ '' '' @ crlf @ ''Subject: [FWD] Hi'' @ crlf @
     crlf @ ''Body'' @ crlf \<and>
   rewrite ((cfg_rules rules_info)\<lparr>subjectPrefix := None\<rparr>) (Some ''info@x.com'')
     (''From: a@x.com'' @ crlf @ ''DKIM-Signature: x'' @ crlf @ '' '' @ crlf @
      ''Subject: Hi'' @ crlf @ crlf @ ''Body'' @ crlf) =
     ''From: a@x.com <relay@verified.com>'' @ crlf @ ''Reply-To: a@x.com'' @ crlf @
     crlf @ ''Body'' @ crlf"
  by code_simp

section \<open>Lines, header names and the anchored expressions\<close>

lemma last_of_simps [simp]:
  "last_of pr [] = pr" "last_of pr (x # w) = last_of (Some x) w"
  by (simp_all add: last_of_def)

lemma last_of_append [simp]: "last_of pr (u @ w) = last_of (last_of pr u) w"
  by (induction u arbitrary: pr) simp_all

lemma rmatch_lit_i:
  "rmatch (lit_i name) k c (pr, s) =
     (if has_name name s then k c (last_of pr (take (length name) s), drop (length name) s)
      else None)"
proof (induction name arbitrary: pr s)
  case Nil
  show ?case by simp
next
  case (Cons a as)
  show ?case
  proof (cases s)
    case Nil
    then show ?thesis by simp
  next
    case (Cons x xs)
    then show ?thesis using Cons.IH [of "Some x" xs] by simp
  qed
qed

lemma has_name_append:
  "has_name name l \<Longrightarrow> has_name name (l @ s)"
  by (induction name l rule: has_name.induct) simp_all

lemma has_name_length: "has_name name l \<Longrightarrow> length name \<le> length l"
  by (induction name l rule: has_name.induct) simp_all

lemma has_name_before_break:
  assumes "list_all (\<lambda>a. \<not> ci a LF \<and> \<not> ci a CR) name" and "ends_line s"
  shows "has_name name (l @ s) \<longleftrightarrow> has_name name l"
  using assms(1)
proof (induction name l rule: has_name.induct)
  case (1 s)
  show ?case by simp
next
  case (2 a as)
  then show ?case using assms(2)
    by (cases s) (auto simp: ends_line_def is_lt_def)
next
  case (3 a as x xs)
  then show ?case by simp
qed

subsection \<open>Greedy repetition of a character class\<close>

lemma repeat_greedy_all:
  assumes "list_all P w" and "case s of [] \<Rightarrow> True | x # xs \<Rightarrow> \<not> P x" and "length w < n"
    and "k c (last_of pr w, s) = Some res"
  shows "repeat True [] (rmatch (Cls P)) n k c (pr, w @ s) = Some res"
  using assms
proof (induction w arbitrary: n pr)
  case Nil
  then obtain n' where "n = Suc n'" by (cases n) auto
  with Nil show ?case by (cases s) simp_all
next
  case (Cons x w)
  then obtain n' where n: "n = Suc n'" by (cases n) auto
  with Cons.prems have "length w < n'" by simp
  from Cons.IH [OF _ Cons.prems(2) this, of "Some x"] Cons.prems(1,4)
  have "repeat True [] (rmatch (Cls P)) n' k c (Some x, w @ s) = Some res"
    by simp
  with Cons.prems(1) show ?case by (simp add: n)
qed

lemma star_greedy_all:
  assumes "list_all P w" and "case s of [] \<Rightarrow> True | x # xs \<Rightarrow> \<not> P x"
    and "k c (last_of pr w, s) = Some res"
  shows "rmatch (Star True (Cls P)) k c (pr, w @ s) = Some res"
proof -
  have "length w < Suc (length (w @ s))" by simp
  from repeat_greedy_all [of P w s _ k c pr res, OF assms(1,2) this assms(3)] show ?thesis
    by (simp del: repeat.simps)
qed

lemma ends_line_not_dot: "ends_line s \<Longrightarrow> (case s of [] \<Rightarrow> True | x # xs \<Rightarrow> \<not> is_dot x)"
  by (cases s) (simp_all add: ends_line_def is_dot_def)

lemma captured_append [simp]: "captured (pr, w @ s) (pr', s) = w"
  by (simp add: captured_def)

lemma grp_star_dots:
  assumes "list_all is_dot w" and "ends_line s"
  shows "rmatch (Grp i (Star True (Cls is_dot))) (\<lambda>c q. Some (c, q)) c (pr, w @ s) =
           Some (c(i \<mapsto> w), (last_of pr w, s))"
proof -
  have "rmatch (Star True (Cls is_dot))
          (\<lambda>c' q. Some (c'(i \<mapsto> captured (pr, w @ s) q), q)) c (pr, w @ s) =
        Some (c(i \<mapsto> w), (last_of pr w, s))"
    by (rule star_greedy_all [OF assms(1) ends_line_not_dot [OF assms(2)]]) simp
  then show ?thesis by (simp del: rmatch.simps(6))
qed

lemma subject_re_anchored:
  "subject_re = anchored ''subject:'' (Seq (Opt (Cls sp_tab)) (Grp 1 (Star True (Cls is_dot))))"
  by (simp add: subject_re_def anchored_def)

subsection \<open>Where an anchored expression cannot match\<close>

lemma anchored_inside:
  "\<not> is_lt x \<Longrightarrow> match_at (anchored name X) (Some x, s) = None"
  by (simp add: match_at_def anchored_def)

lemma anchored_no_name:
  assumes "plain_name name" and "ends_line s" and "\<not> has_name name l"
  shows "match_at (anchored name X) (pr, l @ s) = None"
proof -
  have "\<not> has_name name (l @ s)"
    using assms by (simp add: has_name_before_break plain_name_def)
  then show ?thesis
    by (simp add: match_at_def anchored_def rmatch_lit_i split: option.splits)
qed

lemma anchored_at_break:
  assumes "plain_name name" and "ends_line s"
  shows "match_at (anchored name X) (pr, s) = None"
proof -
  from assms(1) have "\<not> has_name name []" by (cases name) (simp_all add: plain_name_def)
  from anchored_no_name [OF assms this] show ?thesis by simp
qed

lemma shift_Nil [simp]: "shift [] r = r"
  by (simp add: shift_def split: option.splits)

lemma shift_shift [simp]: "shift u (shift w r) = shift (u @ w) r"
  by (simp add: shift_def split: option.splits)

subsection \<open>The search passes over the lines without the name\<close>

lemma exec_step:
  "match_at r (pr, x # xs) = None \<Longrightarrow> exec r pr (x # xs) = shift [x] (exec r (Some x) xs)"
  by (simp add: shift_def split: option.splits)

lemma exec_dots:
  assumes "list_all is_dot w" and "\<not> is_lt x"
  shows "exec (anchored name X) (Some x) (w @ s) =
           shift w (exec (anchored name X) (last_of (Some x) w) s)"
  using assms
proof (induction w arbitrary: x)
  case Nil
  show ?case by simp
next
  case (Cons y w)
  from Cons.prems(1) have "is_dot y" and y2: "list_all is_dot w" by simp_all
  then have y1: "\<not> is_lt y" by (simp add: is_dot_def)
  note y = y1 y2
  have "exec (anchored name X) (Some x) ((y # w) @ s) =
          shift [y] (exec (anchored name X) (Some y) (w @ s))"
    using exec_step [OF anchored_inside [OF Cons.prems(2)]] by (simp del: exec.simps)
  also have "\<dots> = shift (y # w) (exec (anchored name X) (last_of (Some y) w) s)"
    using Cons.IH [OF y(2) y(1)] by (simp del: exec.simps)
  finally show ?case by (simp del: exec.simps)
qed

lemma exec_term:
  assumes "plain_name name" and "is_term t"
  shows "exec (anchored name X) pr (t @ s) = shift t (exec (anchored name X) (last_of pr t) s)"
proof -
  have 1: "exec (anchored name X) pr' (a # s') = shift [a] (exec (anchored name X) (Some a) s')"
    if "is_lt a" for pr' a s'
    using exec_step [OF anchored_at_break [OF assms(1), of "a # s'" X pr']] that
    by (simp add: ends_line_def del: exec.simps)
  have lf: "is_lt LF" "is_lt CR" by (simp_all add: is_lt_def)
  from assms(2) consider "t = [LF]" | "t = [CR, LF]" | "t = [CR]" by (auto simp: is_term_def)
  then show ?thesis
    by cases (simp_all add: 1 lf del: exec.simps)
qed

lemma is_term_ends: "is_term t \<Longrightarrow> ends_line (t @ s)"
  by (auto simp: is_term_def ends_line_def is_lt_def)

lemma is_term_last: "is_term t \<Longrightarrow> line_start (last_of pr t)"
  by (auto simp: is_term_def line_start_def is_lt_def)

lemma exec_line_skip:
  assumes "plain_name name" and "list_all is_dot l" and "is_term t" and "\<not> has_name name l"
  shows "exec (anchored name X) pr (l @ t @ s) =
           shift (l @ t) (exec (anchored name X) (last_of pr (l @ t)) s)"
proof (cases l)
  case Nil
  then show ?thesis using exec_term [OF assms(1,3)] by (simp del: exec.simps)
next
  case (Cons x w)
  with assms(2) have "is_dot x" and x2: "list_all is_dot w" by simp_all
  then have x1: "\<not> is_lt x" by (simp add: is_dot_def)
  note x = x1 x2
  have "match_at (anchored name X) (pr, l @ t @ s) = None"
    by (rule anchored_no_name [OF assms(1) is_term_ends [OF assms(3)] assms(4)])
  then have "exec (anchored name X) pr (l @ t @ s) =
               shift [x] (exec (anchored name X) (Some x) (w @ t @ s))"
    using exec_step [of "anchored name X" pr x "w @ t @ s"] Cons by (simp del: exec.simps)
  also have "\<dots> = shift (x # w) (exec (anchored name X) (last_of (Some x) w) (t @ s))"
    using exec_dots [OF x(2) x(1)] by (simp del: exec.simps)
  also have "\<dots> = shift (x # w @ t) (exec (anchored name X) (last_of (last_of (Some x) w) t) s)"
    using exec_term [OF assms(1,3)] by (simp del: exec.simps)
  finally show ?thesis using Cons by (simp del: exec.simps)
qed

lemma unlines_simps [simp]:
  "unlines [] = []" "unlines (lt # ls) = fst lt @ snd lt @ unlines ls"
  "unlines (ls @ ms) = unlines ls @ unlines ms"
  by (simp_all add: unlines_def)

lemma exec_lines_skip:
  assumes "plain_name name" and "list_all wf_line pre" and "list_all (\<lambda>lt. \<not> named name lt) pre"
  shows "exec (anchored name X) pr (unlines pre @ s) =
           shift (unlines pre) (exec (anchored name X) (last_of pr (unlines pre)) s)"
  using assms(2,3)
proof (induction pre arbitrary: pr)
  case Nil
  show ?case by (simp del: exec.simps)
next
  case (Cons lt pre)
  obtain l t where lt: "lt = (l, t)" by (cases lt)
  from Cons.prems have h: "wf_line lt" "\<not> named name lt"
    and p: "list_all wf_line pre" "list_all (\<lambda>lt. \<not> named name lt) pre"
    by simp_all
  from h lt have w: "list_all is_dot l" "is_term t" "\<not> has_name name l"
    by (simp_all add: wf_line_def named_def)
  have "exec (anchored name X) pr (unlines (lt # pre) @ s) =
          exec (anchored name X) pr (l @ t @ (unlines pre @ s))"
    by (simp add: lt del: exec.simps)
  also have "\<dots> = shift (l @ t) (exec (anchored name X) (last_of pr (l @ t)) (unlines pre @ s))"
    by (rule exec_line_skip [OF assms(1) w])
  also have "\<dots> = shift (l @ t) (shift (unlines pre)
                 (exec (anchored name X) (last_of (last_of pr (l @ t)) (unlines pre)) s))"
    by (simp only: Cons.IH [OF p])
  finally show ?case by (simp add: lt del: exec.simps)
qed

lemma line_start_lines:
  assumes "line_start pr" and "list_all wf_line ls"
  shows "line_start (last_of pr (unlines ls))"
  using assms
proof (induction ls arbitrary: pr)
  case Nil
  then show ?case by simp
next
  case (Cons lt ls)
  then have "wf_line lt" and 2: "list_all wf_line ls" by simp_all
  then have 1: "is_term (snd lt)" by (simp add: wf_line_def)
  from Cons.IH [OF is_term_last [OF 1] 2] show ?case by simp
qed

lemma exec_last_line:
  assumes "plain_name name" and "list_all is_dot l" and "\<not> has_name name l"
  shows "exec (anchored name X) pr l = None"
proof (cases l)
  case Nil
  then show ?thesis
    using anchored_at_break [OF assms(1), of "[]" X pr] by (simp add: ends_line_def)
next
  case (Cons x w)
  with assms(2) have "is_dot x" and x2: "list_all is_dot w" by simp_all
  then have x1: "\<not> is_lt x" by (simp add: is_dot_def)
  have e: "exec (anchored name X) pr' [] = None" for pr'
    using anchored_at_break [OF assms(1), of "[]" X pr'] by (simp add: ends_line_def)
  have "match_at (anchored name X) (pr, l @ []) = None"
    by (rule anchored_no_name [OF assms(1) _ assms(3)]) (simp add: ends_line_def)
  then have "exec (anchored name X) pr l = shift [x] (exec (anchored name X) (Some x) (w @ []))"
    using exec_step [of "anchored name X" pr x w] Cons by (simp del: exec.simps)
  also have "\<dots> = None"
    unfolding exec_dots [OF x2 x1] by (simp add: e shift_def del: exec.simps)
  finally show ?thesis .
qed

lemma exec_none:
  assumes "plain_name name" and "list_all wf_line ls" and "list_all (\<lambda>lt. \<not> named name lt) ls"
    and "list_all is_dot l" and "\<not> has_name name l"
  shows "exec (anchored name X) pr (unlines ls @ l) = None"
  unfolding exec_lines_skip [OF assms(1-3)]
  by (simp add: exec_last_line [OF assms(1,4,5)] shift_def)

subsection \<open>The test for an existing \<^verbatim>\<open>Reply-To:\<close>\<close>

lemma reply_to_re_anchored: "reply_to_re = anchored ''reply-to:'' (Opt (Cls sp_tab))"
  by (simp add: reply_to_re_def anchored_def)

lemma plain_reply_to: "plain_name ''reply-to:''"
  by code_simp

lemma plain_from: "plain_name ''from:''"
  by code_simp

lemma plain_subject: "plain_name ''subject:''"
  by code_simp

lemma line_start_Bol: "line_start pr \<Longrightarrow> rmatch Bol k c (pr, s) = k c (pr, s)"
  by (auto simp: line_start_def split: option.splits)

lemma match_anchored:
  assumes "line_start pr" and "has_name name s"
  shows "match_at (anchored name X) (pr, s) =
           rmatch X (\<lambda>c q. Some (c, q)) (\<lambda>i. None)
             (last_of pr (take (length name) s), drop (length name) s)"
  using assms(2) line_start_Bol [OF assms(1)]
  by (simp add: match_at_def anchored_def rmatch_lit_i)

lemma opt_final: "rmatch (Opt (Cls P)) (\<lambda>c q. Some (c, q)) c p \<noteq> None"
  by (cases "snd p") (simp_all add: Opt_def)

lemma match_reply_to:
  assumes "line_start pr" and "has_name ''reply-to:'' l"
  shows "match_at reply_to_re (pr, l @ s) \<noteq> None"
  unfolding reply_to_re_anchored match_anchored [OF assms(1) has_name_append [OF assms(2)]]
  by (rule opt_final)

lemma exec_found: "match_at r (pr, s) \<noteq> None \<Longrightarrow> exec r pr s \<noteq> None"
  by (cases s) (auto split: option.splits)

lemma shift_None: "shift w r = None \<longleftrightarrow> r = None"
  by (simp add: shift_def split: option.splits)

lemma re_test_reply_to_lines:
  assumes "list_all wf_line ls" and "list_all is_dot l"
  shows "re_test reply_to_re (unlines ls @ l) \<longleftrightarrow>
           (list_ex (named ''reply-to:'') ls \<or> has_name ''reply-to:'' l)"
proof (cases "list_ex (named ''reply-to:'') ls")
  case True
  then have "\<exists>x\<in>set ls. named ''reply-to:'' x" by (simp add: list_ex_iff)
  from split_list_first_prop [OF this]
  obtain pre lt post where s: "ls = pre @ lt # post" "named ''reply-to:'' lt"
    "\<forall>y\<in>set pre. \<not> named ''reply-to:'' y"
    by blast
  from s(1) assms(1) have pre: "list_all wf_line pre" by simp
  from s(3) have nn: "list_all (\<lambda>lt. \<not> named ''reply-to:'' lt) pre" by (simp add: list_all_iff)
  have ls: "line_start (last_of None (unlines pre))"
    by (rule line_start_lines [OF _ pre]) (simp add: line_start_def)
  have "match_at reply_to_re (last_of None (unlines pre), fst lt @ (snd lt @ unlines post @ l)) \<noteq> None"
    using s(2) by (intro match_reply_to [OF ls]) (simp add: named_def)
  then have "exec reply_to_re (last_of None (unlines pre)) (fst lt @ (snd lt @ unlines post @ l)) \<noteq> None"
    by (rule exec_found)
  then have "exec reply_to_re None (unlines pre @ (fst lt @ (snd lt @ unlines post @ l))) \<noteq> None"
    unfolding reply_to_re_anchored
    by (simp add: exec_lines_skip [OF plain_reply_to pre nn] shift_None del: exec.simps)
  then show ?thesis using True by (simp add: re_test_def s(1) del: exec.simps)
next
  case False
  then have nn: "list_all (\<lambda>lt. \<not> named ''reply-to:'' lt) ls"
    by (simp add: list_all_iff list_ex_iff)
  show ?thesis
  proof (cases "has_name ''reply-to:'' l")
    case True
    have ls: "line_start (last_of None (unlines ls))"
      by (rule line_start_lines [OF _ assms(1)]) (simp add: line_start_def)
    have "match_at reply_to_re (last_of None (unlines ls), l @ []) \<noteq> None"
      by (rule match_reply_to [OF ls True])
    then have "exec reply_to_re (last_of None (unlines ls)) l \<noteq> None"
      using exec_found by simp
    then have "exec reply_to_re None (unlines ls @ l) \<noteq> None"
      unfolding reply_to_re_anchored
      by (simp add: exec_lines_skip [OF plain_reply_to assms(1) nn] shift_None del: exec.simps)
    then show ?thesis using True by (simp add: re_test_def)
  next
    case nl: False
    have "exec reply_to_re None (unlines ls @ l) = None"
      unfolding reply_to_re_anchored
      by (rule exec_none [OF plain_reply_to assms(1) nn assms(2) nl])
    then show ?thesis using False nl by (simp add: re_test_def)
  qed
qed

subsection \<open>The value of a folded \<^verbatim>\<open>From:\<close> header\<close>

lemma grps_fold_re [simp]: "grps fold_re = []"
  by (simp add: fold_re_def Opt_def Lit_def Plus_def)

lemma opt_cr_lf:
  assumes "nl t"
  shows "rmatch (Opt (Lit CR)) (rmatch (Lit LF) K) c (pr, t @ s) = K c (Some LF, s)"
proof -
  have "LF \<noteq> CR" by (simp add: LF_def CR_def)
  with assms show ?thesis
    by (auto simp: nl_def Opt_def Lit_def split: option.splits)
qed

lemma opt_cr_lf_end:
  assumes "nl t"
  shows "rmatch (Opt (Lit CR)) (rmatch (Lit LF) K) c (pr, t) = K c (Some LF, [])"
  using opt_cr_lf [OF assms, of K c pr "[]"] by simp

lemma plus_spaces:
  assumes "list_all P w" and "w \<noteq> []" and "case s of [] \<Rightarrow> True | x # xs \<Rightarrow> \<not> P x"
    and "k c (last_of pr w, s) = Some res"
  shows "rmatch (Plus (Cls P)) k c (pr, w @ s) = Some res"
proof -
  from assms(2) obtain x w' where w: "w = x # w'" by (cases w) auto
  with assms(1) have x: "P x" "list_all P w'" by simp_all
  have "rmatch (Star True (Cls P)) k c (Some x, w' @ s) = Some res"
    by (rule star_greedy_all [OF x(2) assms(3)]) (use assms(4) w in simp)
  then show ?thesis using x(1) by (simp add: Plus_def w del: rmatch.simps(6))
qed

lemma folded_split:
  assumes "folded (l, t)"
  shows "\<exists>w b. l = w @ b \<and> w \<noteq> [] \<and> list_all is_space w \<and> b \<noteq> [] \<and> \<not> is_space (hd b)"
proof -
  let ?w = "takeWhile is_space l" and ?b = "dropWhile is_space l"
  from assms obtain x xs where l: "l = x # xs" "is_space x" "list_ex (\<lambda>y. \<not> is_space y) xs"
    by (auto simp: folded_def split: list.splits)
  have "?w \<noteq> []" using l by simp
  moreover have "list_all is_space ?w" by (simp add: list_all_iff) (meson set_takeWhileD)
  moreover have "?b \<noteq> []" using l(3) by (auto simp: list_ex_iff l(1))
  moreover from this have "\<not> is_space (hd ?b)" by (rule hd_dropWhile)
  ultimately show ?thesis by (intro exI [of _ ?w] exI [of _ ?b]) simp
qed

lemma fold_iter:
  assumes "nl t" and "wf_line (l, t')" and "folded (l, t')" and "ends_line s"
    and "\<And>pr'. k c (pr', s) = Some res"
  shows "rmatch fold_re k c (pr, t @ l @ s) = Some res"
proof -
  from folded_split [OF assms(3)] obtain w b where
    l: "l = w @ b" "w \<noteq> []" "list_all is_space w" "b \<noteq> []" "\<not> is_space (hd b)"
    by blast
  from assms(2) l(1) have b: "list_all is_dot b" by (simp add: wf_line_def)
  have 1: "rmatch (Star True (Cls is_dot)) k c (last_of (Some LF) w, b @ s) = Some res"
    by (rule star_greedy_all [OF b ends_line_not_dot [OF assms(4)]]) (rule assms(5))
  have 2: "rmatch (Plus (Cls is_space)) (rmatch (Star True (Cls is_dot)) k) c (Some LF, w @ (b @ s)) =
             Some res"
    by (rule plus_spaces [of is_space w "b @ s" "rmatch (Star True (Cls is_dot)) k" c "Some LF" res,
          OF l(3,2) _ 1]) (use l(4,5) in \<open>cases b; simp\<close>)
  show ?thesis
    unfolding fold_re_def using 2
    by (simp add: opt_cr_lf [OF assms(1)] l(1) del: rmatch.simps(6))
qed

lemma fold_fail:
  assumes "nl t" and "header_starts s"
  shows "rmatch fold_re k c (pr, t @ s) = None"
  unfolding fold_re_def using assms(2)
  by (simp add: opt_cr_lf [OF assms(1)] opt_cr_lf_end [OF assms(1)] Plus_def header_starts_def
      split: list.splits del: rmatch.simps(6))

lemma nl_nonempty: "nl t \<Longrightarrow> t \<noteq> []"
  by (auto simp: nl_def)

lemma nl_ends: "nl t \<Longrightarrow> ends_line (t @ s)"
  by (auto simp: nl_def ends_line_def is_lt_def)

lemma repeat_folds:
  assumes "nl t0" and "list_all wf_line conts" and "list_all folded conts"
    and "header_starts rest" and "length conts < n"
    and "\<And>pr'. k c (pr', last_term t0 conts @ rest) = Some res"
  shows "repeat True [] (rmatch fold_re) n k c (pr, t0 @ unlines conts @ rest) = Some res"
  using assms(1,2,3,5,6)
proof (induction conts arbitrary: t0 n pr)
  case Nil
  then obtain n' where n: "n = Suc n'" by (cases n) auto
  have "rmatch fold_re d c (pr, t0 @ rest) = None" for d
    by (rule fold_fail [OF Nil.prems(1) assms(4)])
  then show ?case using Nil.prems(5) [of pr] by (simp add: n last_term_def)
next
  case (Cons lt conts)
  obtain l t where lt: "lt = (l, t)" by (cases lt)
  from Cons.prems obtain n' where n: "n = Suc n'" by (cases n) auto
  from Cons.prems lt have w: "wf_line (l, t)" "folded (l, t)"
    and c: "list_all wf_line conts" "list_all folded conts" by simp_all
  from w(2) have t: "nl t" by (simp add: folded_def)
  have n': "length conts < n'" using Cons.prems(4) n by simp
  have lt': "last_term t conts = last_term t0 (lt # conts)"
    by (simp add: last_term_def lt)
  have ih: "repeat True [] (rmatch fold_re) n' k c (pr', t @ unlines conts @ rest) = Some res" for pr'
    by (rule Cons.IH [OF t c n']) (simp add: lt' Cons.prems(5))
  have ne: "length (t @ unlines conts @ rest) \<noteq> length (t0 @ unlines (lt # conts) @ rest)"
    using nl_nonempty [OF Cons.prems(1)] by (simp add: lt)
  let ?d = "\<lambda>c' q. if length (snd q) = length (snd (pr, t0 @ unlines (lt # conts) @ rest)) then None
                    else repeat True [] (rmatch fold_re) n' k c' q"
  have "rmatch fold_re ?d c (pr, t0 @ l @ (t @ unlines conts @ rest)) = Some res"
    by (rule fold_iter [OF Cons.prems(1) w nl_ends [OF t]]) (use ne ih in simp)
  then show ?case by (simp add: n lt)
qed

lemma from_line_re_anchored:
  "from_line_re = anchored ''from:''
     (Seq (Opt (Cls sp_tab))
        (Grp 1 (Seq (Star True (Cls is_dot))
                  (Seq (Star True fold_re) (Seq (Opt (Lit CR)) (Lit LF))))))"
  by (simp add: from_line_re_def anchored_def fold_re_def)

lemma folded_length: "list_all folded conts \<Longrightarrow> length conts \<le> length (unlines conts)"
proof (induction conts)
  case Nil
  show ?case by simp
next
  case (Cons lt conts)
  then have "folded lt" "list_all folded conts" by simp_all
  from this(1) have "fst lt \<noteq> []" by (auto simp: folded_def split: list.splits)
  then have "1 \<le> length (fst lt)" by (cases "fst lt") simp_all
  with Cons.IH [OF \<open>list_all folded conts\<close>] show ?case by simp
qed

lemma nl_last_term: "nl t0 \<Longrightarrow> list_all folded conts \<Longrightarrow> nl (last_term t0 conts)"
  by (cases conts rule: rev_cases) (simp_all add: last_term_def folded_def)

lemma grp_value:
  assumes "list_all is_dot v" and "nl t0" and "list_all wf_line conts" and "list_all folded conts"
    and "header_starts rest"
  shows "rmatch (Grp 1 (Seq (Star True (Cls is_dot))
                  (Seq (Star True fold_re) (Seq (Opt (Lit CR)) (Lit LF)))))
           (\<lambda>c q. Some (c, q)) c (pr, v @ t0 @ unlines conts @ rest) =
         Some (c(1 \<mapsto> v @ t0 @ unlines conts), (Some LF, rest))"
proof -
  let ?p = "(pr, v @ t0 @ unlines conts @ rest)"
  let ?K = "\<lambda>c' q. Some (c'(1 \<mapsto> captured ?p q), q)"
  let ?k = "rmatch (Opt (Lit CR)) (rmatch (Lit LF) ?K)"
  let ?res = "(c(1 \<mapsto> v @ t0 @ unlines conts), (Some LF, rest))"
  have cap: "captured ?p (Some LF, rest) = v @ t0 @ unlines conts"
    using captured_append [of pr "v @ t0 @ unlines conts" rest "Some LF"] by simp
  have k: "?k c (pr', last_term t0 conts @ rest) = Some ?res" for pr'
    by (simp add: opt_cr_lf [OF nl_last_term [OF assms(2,4)]] cap)
  have "length conts < Suc (length (t0 @ unlines conts @ rest))"
    using folded_length [OF assms(4)] by simp
  from repeat_folds [of t0 conts rest _ ?k c ?res, OF assms(2-5) this k]
  have loop: "rmatch (Star True fold_re) ?k c (pr', t0 @ unlines conts @ rest) = Some ?res" for pr'
    by (simp del: repeat.simps)
  have "rmatch (Star True (Cls is_dot)) (rmatch (Star True fold_re) ?k) c
          (pr, v @ (t0 @ unlines conts @ rest)) = Some ?res"
    by (rule star_greedy_all [OF assms(1) ends_line_not_dot [OF nl_ends [OF assms(2)]]])
       (rule loop)
  then show ?thesis by (simp del: rmatch.simps(6))
qed

lemma nl_not_sp_tab: "nl t \<Longrightarrow> (case t @ s of [] \<Rightarrow> True | x # xs \<Rightarrow> \<not> sp_tab x)"
  by (auto simp: nl_def sp_tab_def LF_def CR_def TAB_def)

lemma match_from_line:
  assumes "line_start pr" and "has_name ''from:'' fl" and "list_all is_dot fl" and "nl t0"
    and "list_all wf_line conts" and "list_all folded conts" and "header_starts rest"
  shows "\<exists>c pr'. match_at from_line_re (pr, fl @ t0 @ unlines conts @ rest) = Some (c, (pr', rest)) \<and>
           c 1 = Some (header_value ''from:'' fl @ t0 @ unlines conts)"
proof -
  let ?G = "Grp 1 (Seq (Star True (Cls is_dot))
                  (Seq (Star True fold_re) (Seq (Opt (Lit CR)) (Lit LF))))"
  let ?tail = "t0 @ unlines conts @ rest"
  let ?v0 = "drop (length ''from:'') fl"
  have len: "length ''from:'' \<le> length fl" by (rule has_name_length [OF assms(2)])
  have v0: "list_all is_dot ?v0" using assms(3) by (simp add: list_all_iff) (meson in_set_dropD)
  have G: "rmatch ?G (\<lambda>c q. Some (c, q)) c (pr', v @ ?tail) =
             Some (c(1 \<mapsto> v @ t0 @ unlines conts), (Some LF, rest))"
    if "list_all is_dot v" for v c pr'
    by (rule grp_value [OF that assms(4-7)])
  have m: "match_at from_line_re (pr, fl @ ?tail) =
        rmatch (Seq (Opt (Cls sp_tab)) ?G) (\<lambda>c q. Some (c, q)) (\<lambda>i. None)
          (last_of pr (take (length ''from:'') (fl @ ?tail)), ?v0 @ ?tail)"
    unfolding from_line_re_anchored
    using match_anchored [OF assms(1) has_name_append [OF assms(2)], of _ ?tail] len
    by (simp del: rmatch.simps)
  show ?thesis
  proof (cases ?v0)
    case Nil
    have "rmatch (Seq (Opt (Cls sp_tab)) ?G) (\<lambda>c q. Some (c, q)) c' (pr', [] @ ?tail) =
            Some (c'(1 \<mapsto> [] @ t0 @ unlines conts), (Some LF, rest))" for c' pr'
      using G [of "[]" c' pr'] nl_not_sp_tab [OF assms(4), of "unlines conts @ rest"]
      by (cases "t0 @ unlines conts @ rest") (simp_all add: Opt_def del: rmatch.simps(6,7))
    then show ?thesis unfolding m using Nil by (simp add: header_value_def del: rmatch.simps)
  next
    case (Cons x v)
    with v0 have v: "list_all is_dot v" "list_all is_dot (x # v)" by simp_all
    have "rmatch (Seq (Opt (Cls sp_tab)) ?G) (\<lambda>c q. Some (c, q)) c' (pr', (x # v) @ ?tail) =
            Some (c'(1 \<mapsto> (if sp_tab x then v else x # v) @ t0 @ unlines conts), (Some LF, rest))"
      for c' pr'
      using G [OF v(1), of c' "Some x"] G [OF v(2), of c' pr']
      by (simp add: Opt_def del: rmatch.simps(6,7))
    then show ?thesis unfolding m using Cons by (simp add: header_value_def del: rmatch.simps)
  qed
qed

lemma from_value_lines:
  assumes "list_all wf_line pre" and "list_all (\<lambda>lt. \<not> named ''from:'' lt) pre"
    and "has_name ''from:'' fl" and "list_all is_dot fl" and "nl t0"
    and "list_all wf_line conts" and "list_all folded conts" and "header_starts rest"
  shows "from_value (unlines pre @ fl @ t0 @ unlines conts @ rest) =
           header_value ''from:'' fl @ t0 @ unlines conts"
proof -
  let ?s = "fl @ t0 @ unlines conts @ rest"
  have ls: "line_start (last_of None (unlines pre))"
    by (rule line_start_lines [OF _ assms(1)]) (simp add: line_start_def)
  from match_from_line [OF ls assms(3-8)] obtain c pr' where
    m: "match_at from_line_re (last_of None (unlines pre), ?s) = Some (c, (pr', rest))"
       "c 1 = Some (header_value ''from:'' fl @ t0 @ unlines conts)"
    by blast
  from assms(3) obtain x xs where fl: "fl = x # xs" by (cases fl) simp_all
  have "exec from_line_re (last_of None (unlines pre)) ?s =
          Some ([], captured (last_of None (unlines pre), ?s) (pr', rest), c, rest)"
    using m(1) by (simp add: fl)
  then have "exec from_line_re None (unlines pre @ ?s) =
          Some (unlines pre, captured (last_of None (unlines pre), ?s) (pr', rest), c, rest)"
    unfolding from_line_re_anchored
    by (simp add: exec_lines_skip [OF plain_from assms(1,2)] shift_def del: exec.simps)
  then show ?thesis using m(2) by (simp add: from_value_def cap_text_def del: exec.simps)
qed

subsection \<open>The global replacement, line by line\<close>

lemma scan_step:
  "match_at r (pr, x # xs) = None \<Longrightarrow> scan r f bf 0 pr (x # xs) = x # scan r f (bf @ [x]) 0 (Some x) xs"
  by simp

lemma scan_dots:
  assumes "list_all is_dot w" and "\<not> is_lt x"
  shows "scan (anchored name X) f bf 0 (Some x) (w @ s) =
           w @ scan (anchored name X) f (bf @ w) 0 (last_of (Some x) w) s"
  using assms
proof (induction w arbitrary: x bf)
  case Nil
  show ?case by (simp del: scan.simps)
next
  case (Cons y w)
  from Cons.prems(1) have "is_dot y" and y2: "list_all is_dot w" by simp_all
  then have y1: "\<not> is_lt y" by (simp add: is_dot_def)
  have "scan (anchored name X) f bf 0 (Some x) ((y # w) @ s) =
          y # scan (anchored name X) f (bf @ [y]) 0 (Some y) (w @ s)"
    using scan_step [OF anchored_inside [OF Cons.prems(2)]] by (simp del: scan.simps)
  also have "\<dots> = y # w @ scan (anchored name X) f ((bf @ [y]) @ w) 0 (last_of (Some y) w) s"
    by (simp only: Cons.IH [OF y2 y1])
  finally show ?case by (simp del: scan.simps)
qed

lemma scan_term:
  assumes "plain_name name" and "is_term t"
  shows "scan (anchored name X) f bf 0 pr (t @ s) =
           t @ scan (anchored name X) f (bf @ t) 0 (last_of pr t) s"
proof -
  have 1: "scan (anchored name X) f bf' 0 pr' (a # s') =
             a # scan (anchored name X) f (bf' @ [a]) 0 (Some a) s'"
    if "is_lt a" for pr' a s' bf'
    using scan_step [OF anchored_at_break [OF assms(1), of "a # s'" X pr']] that
    by (simp add: ends_line_def del: scan.simps)
  have lf: "is_lt LF" "is_lt CR" by (simp_all add: is_lt_def)
  from assms(2) consider "t = [LF]" | "t = [CR, LF]" | "t = [CR]" by (auto simp: is_term_def)
  then show ?thesis
    by cases (simp_all add: 1 lf del: scan.simps)
qed

lemma scan_end:
  assumes "plain_name name"
  shows "scan (anchored name X) f bf 0 pr [] = []"
  using anchored_at_break [OF assms, of "[]" X pr] by (simp add: ends_line_def)

lemma scan_skip:
  "scan r f bf (length w) pr (w @ s) = scan r f (bf @ w) 0 (last_of pr w) s"
  by (induction w arbitrary: bf pr) (simp_all del: scan.simps(3,4))

lemma scan_content_plain:
  assumes "plain_name name" and "list_all is_dot l" and "ends_line s" and "\<not> has_name name l"
  shows "scan (anchored name X) f bf 0 pr (l @ s) =
           l @ scan (anchored name X) f (bf @ l) 0 (last_of pr l) s"
proof (cases l)
  case Nil
  then show ?thesis by (simp del: scan.simps)
next
  case (Cons x w)
  with assms(2) have "is_dot x" and x2: "list_all is_dot w" by simp_all
  then have x1: "\<not> is_lt x" by (simp add: is_dot_def)
  have "match_at (anchored name X) (pr, l @ s) = None"
    by (rule anchored_no_name [OF assms(1,3,4)])
  then have "scan (anchored name X) f bf 0 pr (l @ s) =
               x # scan (anchored name X) f (bf @ [x]) 0 (Some x) (w @ s)"
    using scan_step [of "anchored name X" pr x "w @ s"] Cons by (simp del: scan.simps)
  also have "\<dots> = x # w @ scan (anchored name X) f ((bf @ [x]) @ w) 0 (last_of (Some x) w) s"
    by (simp only: scan_dots [OF x2 x1])
  finally show ?thesis using Cons by (simp del: scan.simps)
qed



lemma ends_line_not_sp_tab: "ends_line s \<Longrightarrow> (case s of [] \<Rightarrow> True | x # xs \<Rightarrow> \<not> sp_tab x)"
  by (cases s) (auto simp: ends_line_def is_lt_def sp_tab_def LF_def CR_def TAB_def)

lemma match_subject:
  assumes "line_start pr" and "has_name ''subject:'' l" and "list_all is_dot l" and "ends_line s"
  shows "\<exists>c. match_at subject_re (pr, l @ s) = Some (c, (last_of pr l, s)) \<and>
           c 1 = Some (header_value ''subject:'' l)"
proof -
  let ?G = "Grp 1 (Star True (Cls is_dot))"
  let ?n = "length ''subject:''"
  let ?v0 = "drop ?n l"
  let ?pr1 = "last_of pr (take ?n l)"
  have len: "?n \<le> length l" by (rule has_name_length [OF assms(2)])
  have v0: "list_all is_dot ?v0" using assms(3) by (simp add: list_all_iff) (meson in_set_dropD)
  have l: "l = take ?n l @ ?v0" by simp
  have last: "last_of ?pr1 ?v0 = last_of pr l"
    using last_of_append [of pr "take ?n l" ?v0] by simp
  have G: "rmatch ?G (\<lambda>c q. Some (c, q)) c (pr', v @ s) = Some (c(1 \<mapsto> v), (last_of pr' v, s))"
    if "list_all is_dot v" for v c pr'
    by (rule grp_star_dots [OF that assms(4)])
  have m: "match_at subject_re (pr, l @ s) =
        rmatch (Seq (Opt (Cls sp_tab)) ?G) (\<lambda>c q. Some (c, q)) (\<lambda>i. None) (?pr1, ?v0 @ s)"
    unfolding subject_re_anchored
    using match_anchored [OF assms(1) has_name_append [OF assms(2)], of _ s] len
    by (simp del: rmatch.simps)
  show ?thesis
  proof (cases ?v0)
    case Nil
    have "rmatch (Seq (Opt (Cls sp_tab)) ?G) (\<lambda>c q. Some (c, q)) c' (pr', [] @ s) =
            Some (c'(1 \<mapsto> []), (pr', s))" for c' pr'
      using G [of "[]" c' pr'] ends_line_not_sp_tab [OF assms(4)]
      by (cases s) (simp_all add: Opt_def del: rmatch.simps(6,7))
    then show ?thesis unfolding m using Nil last
      by (simp add: header_value_def del: rmatch.simps)
  next
    case (Cons x v)
    with v0 have v: "list_all is_dot v" "list_all is_dot (x # v)" by simp_all
    have "rmatch (Seq (Opt (Cls sp_tab)) ?G) (\<lambda>c q. Some (c, q)) c' (pr', (x # v) @ s) =
            Some (c'(1 \<mapsto> (if sp_tab x then v else x # v)), (last_of (Some x) v, s))"
      for c' pr'
      using G [OF v(1), of c' "Some x"] G [OF v(2), of c' pr']
      by (simp add: Opt_def del: rmatch.simps(6,7))
    then show ?thesis unfolding m using Cons last
      by (simp add: header_value_def del: rmatch.simps)
  qed
qed

lemma scan_content_subject:
  assumes "line_start pr" and "has_name ''subject:'' l" and "list_all is_dot l" and "ends_line s"
  shows "scan subject_re (subjectText P) bf 0 pr (l @ s) =
           ''Subject: '' @ P @ header_value ''subject:'' l @
           scan subject_re (subjectText P) (bf @ l) 0 (last_of pr l) s"
proof -
  from match_subject [OF assms] obtain c where
    m: "match_at subject_re (pr, l @ s) = Some (c, (last_of pr l, s))"
       "c 1 = Some (header_value ''subject:'' l)"
    by blast
  from assms(2) obtain x xs where l: "l = x # xs" by (cases l) simp_all
  have cap: "captured (pr, l @ s) (last_of pr l, s) = x # xs"
    using captured_append [of pr l s] l by simp
  have "scan subject_re (subjectText P) bf 0 pr (x # (xs @ s)) =
          subjectText P bf (x # xs) c s @
          scan subject_re (subjectText P) (bf @ [x]) (length xs) (Some x) (xs @ s)"
    using m(1) cap l by (simp del: scan.simps(1,2))
  also have "\<dots> = ''Subject: '' @ P @ header_value ''subject:'' l @
          scan subject_re (subjectText P) ((bf @ [x]) @ xs) 0 (last_of (Some x) xs) s"
    using m(2) by (simp only: scan_skip) (simp add: subjectText_def cap_text_def del: scan.simps)
  finally show ?thesis using l by (simp del: scan.simps)
qed

declare has_name.simps [simp del]

lemma scan_subject_last:
  assumes "list_all is_dot l" and "line_start pr"
  shows "scan subject_re (subjectText P) bf 0 pr l = fst (prefix_line P (l, []))"
proof (cases "has_name ''subject:'' l")
  case True
  have e: "ends_line []" by (simp add: ends_line_def)
  have "scan subject_re (subjectText P) bf' 0 pr' [] = []" for bf' pr'
    unfolding subject_re_anchored by (rule scan_end [OF plain_subject])
  with scan_content_subject [OF assms(2) True assms(1) e, of P bf] True show ?thesis
    by (simp add: prefix_line_def del: scan.simps)
next
  case False
  have e: "ends_line []" by (simp add: ends_line_def)
  have "scan subject_re (subjectText P) bf' 0 pr' [] = []" for bf' pr'
    unfolding subject_re_anchored by (rule scan_end [OF plain_subject])
  with scan_content_plain [OF plain_subject assms(1) e False, of _ "subjectText P" bf pr] False
  show ?thesis
    unfolding subject_re_anchored by (simp add: prefix_line_def del: scan.simps)
qed

lemma scan_subject_lines:
  assumes "list_all wf_line ls" and "list_all is_dot l" and "line_start pr"
  shows "scan subject_re (subjectText P) bf 0 pr (unlines ls @ l) =
           unlines (map (prefix_line P) ls) @ fst (prefix_line P (l, []))"
  using assms(1,3)
proof (induction ls arbitrary: bf pr)
  case Nil
  show ?case using scan_subject_last [OF assms(2) Nil.prems(2)] by (simp del: scan.simps)
next
  case (Cons lt ls)
  obtain c t where lt: "lt = (c, t)" by (cases lt)
  from Cons.prems(1) have "wf_line lt" and wl: "list_all wf_line ls" by simp_all
  with lt have w: "list_all is_dot c" "is_term t" by (simp_all add: wf_line_def)
  let ?rest = "unlines ls @ l"
  let ?pr' = "last_of (last_of pr c) t"
  have st: "line_start ?pr'" by (rule is_term_last [OF w(2)])
  have tm: "scan subject_re (subjectText P) bf' 0 pr'' (t @ ?rest) =
              t @ scan subject_re (subjectText P) (bf' @ t) 0 (last_of pr'' t) ?rest" for bf' pr''
    unfolding subject_re_anchored by (rule scan_term [OF plain_subject w(2)])
  have ih: "scan subject_re (subjectText P) bf' 0 ?pr' ?rest =
              unlines (map (prefix_line P) ls) @ fst (prefix_line P (l, []))" for bf'
    by (rule Cons.IH [OF wl st])
  show ?case
  proof (cases "has_name ''subject:'' c")
    case True
    have pl: "prefix_line P lt = (''Subject: '' @ P @ header_value ''subject:'' c, t)"
      using True by (simp add: prefix_line_def lt)
    from scan_content_subject [OF Cons.prems(2) True w(1) is_term_ends [OF w(2), of ?rest],
        where P = P and bf = bf]
    show ?thesis by (simp add: lt [symmetric] pl tm ih del: scan.simps) (simp add: lt)
  next
    case False
    note sc = scan_content_plain [OF plain_subject w(1) is_term_ends [OF w(2), of ?rest] False,
        where f = "subjectText P" and bf = bf and pr = pr
          and X = "Seq (Opt (Cls sp_tab)) (Grp 1 (Star True (Cls is_dot)))",
        folded subject_re_anchored]
    have pl: "prefix_line P lt = lt"
      using False by (simp add: prefix_line_def lt)
    from sc show ?thesis
      by (simp add: pl tm ih del: scan.simps) (simp add: lt)
  qed
qed

lemma prefixSubject_lines:
  assumes "list_all wf_line ls" and "list_all is_dot l" and "subjectPrefix cfg = Some P" and "P \<noteq> []"
  shows "prefixSubject cfg (unlines ls @ l) =
           unlines (map (prefix_line P) ls) @ fst (prefix_line P (l, []))"
proof -
  have "line_start None" by (simp add: line_start_def)
  from scan_subject_lines [OF assms(1,2) this, of P "[]"] assms(3,4) show ?thesis
    by (simp add: prefixSubject_def truthy_def str_def replace_all_def del: scan.simps)
qed

lemma subject_name: "has_name ''subject:'' (''Subject: '' @ v)"
proof -
  have "has_name ''subject:'' ''Subject: ''" by code_simp
  then show ?thesis by (rule has_name_append)
qed

lemma subject_dots: "list_all is_dot ''Subject: ''"
  by code_simp

lemma header_value_subject: "header_value ''subject:'' (''Subject: '' @ v) = v"
  by (simp add: header_value_def sp_tab_def)

lemma header_value_dots: "list_all is_dot l \<Longrightarrow> list_all is_dot (header_value name l)"
proof -
  assume a: "list_all is_dot l"
  have "list_all is_dot (drop (length name) l)" using a by (simp add: list_all_iff) (meson in_set_dropD)
  then show ?thesis by (cases "drop (length name) l") (simp_all add: header_value_def)
qed

lemma prefix_line_twice: "prefix_line P (prefix_line P lt) = prefix_line (P @ P) lt"
proof (cases "has_name ''subject:'' (fst lt)")
  case True
  let ?v = "header_value ''subject:'' (fst lt)"
  have 1: "prefix_line P lt = (''Subject: '' @ P @ ?v, snd lt)"
    using True by (simp only: prefix_line_def if_True)
  have 2: "prefix_line P (''Subject: '' @ P @ ?v, snd lt) =
             (''Subject: '' @ P @ header_value ''subject:'' (''Subject: '' @ P @ ?v), snd lt)"
    using subject_name [of "P @ ?v"] by (simp only: prefix_line_def fst_conv snd_conv if_True)
  have 3: "prefix_line (P @ P) lt = (''Subject: '' @ (P @ P) @ ?v, snd lt)"
    using True by (simp only: prefix_line_def if_True)
  show ?thesis
    by (simp only: 1 2 3 header_value_subject append_assoc)
next
  case False
  then show ?thesis by (simp only: prefix_line_def if_False)
qed

lemma prefix_line_wf:
  assumes "list_all is_dot P" and "wf_line lt"
  shows "wf_line (prefix_line P lt)"
proof (cases "has_name ''subject:'' (fst lt)")
  case True
  from assms(2) have "list_all is_dot (header_value ''subject:'' (fst lt))"
    by (simp add: wf_line_def header_value_dots)
  with assms(1) subject_dots
  have "list_all is_dot (''Subject: '' @ P @ header_value ''subject:'' (fst lt))"
    by (simp only: list_all_append simp_thms)
  with assms(2) True show ?thesis
    by (simp only: prefix_line_def if_True wf_line_def fst_conv snd_conv simp_thms)
next
  case False
  with assms(2) show ?thesis by (simp only: prefix_line_def if_False)
qed

lemma prefix_line_dots:
  assumes "list_all is_dot P" and "list_all is_dot l"
  shows "list_all is_dot (fst (prefix_line P (l, [])))"
proof (cases "has_name ''subject:'' l")
  case True
  from assms(2) have "list_all is_dot (header_value ''subject:'' l)"
    by (rule header_value_dots)
  with assms(1) subject_dots
  have "list_all is_dot (''Subject: '' @ P @ header_value ''subject:'' l)"
    by (simp only: list_all_append simp_thms)
  with True show ?thesis
    by (simp only: prefix_line_def if_True fst_conv)
next
  case False
  with assms(2) show ?thesis by (simp only: prefix_line_def fst_conv if_False)
qed

lemma prefixSubject_twice:
  assumes "list_all wf_line ls" and "list_all is_dot l" and "subjectPrefix cfg = Some P" and "P \<noteq> []"
    and "list_all is_dot P"
  shows "prefixSubject cfg (prefixSubject cfg (unlines ls @ l)) =
           unlines (map (prefix_line (P @ P)) ls) @ fst (prefix_line (P @ P) (l, []))"
proof -
  have w: "list_all wf_line (map (prefix_line P) ls)"
    using assms(1) prefix_line_wf [OF assms(5)] by (simp add: list_all_iff)
  have d: "list_all is_dot (fst (prefix_line P (l, [])))"
    by (rule prefix_line_dots [OF assms(5,2)])
  have "prefix_line P (l, []) = (fst (prefix_line P (l, [])), [])"
    by (simp add: prefix_line_def)
  then have f: "fst (prefix_line P (fst (prefix_line P (l, [])), [])) = fst (prefix_line (P @ P) (l, []))"
    using prefix_line_twice [of P "(l, [])"] by simp
  show ?thesis
    unfolding prefixSubject_lines [OF assms(1-4)] prefixSubject_lines [OF w d assms(3,4)]
    by (simp add: f prefix_line_twice comp_def)
qed

section \<open>The Reply-To step and the subject step\<close>

lemma reply_to_name: "has_name ''reply-to:'' (''Reply-To: '' @ v)"
proof -
  have "has_name ''reply-to:'' ''Reply-To: ''" by code_simp
  then show ?thesis by (rule has_name_append)
qed

lemma space_not_r: "is_space x \<Longrightarrow> \<not> ci CHR ''r'' x"
proof -
  have "list_all (\<lambda>x. \<not> ci CHR ''r'' x) [TAB, LF, CHR 0x0B, CHR 0x0C, CR, CHR 0x20, CHR 0xA0]"
    by code_simp
  then show "is_space x \<Longrightarrow> \<not> ci CHR ''r'' x"
    unfolding is_space_def list_all_iff by blast
qed

lemma folded_not_reply_to: "folded lt \<Longrightarrow> \<not> named ''reply-to:'' lt"
proof -
  assume "folded lt"
  then obtain x xs where "fst lt = x # xs" "is_space x"
    by (auto simp: folded_def split: list.splits)
  then show ?thesis using space_not_r [of x] by (simp add: named_def has_name.simps)
qed

lemma addReplyTo_present:
  assumes "list_all wf_line ls" and "list_ex (named ''reply-to:'') ls"
  shows "addReplyTo (unlines ls) = unlines ls"
proof -
  have "re_test reply_to_re (unlines ls @ [])"
    using re_test_reply_to_lines [OF assms(1), of "[]"] assms(2) by simp
  then show ?thesis by (simp add: addReplyTo_def)
qed

lemma addReplyTo_absent:
  assumes "list_all wf_line ls" and "\<not> list_ex (named ''reply-to:'') ls"
    and "ls = pre @ (fl, t0) # conts @ post" and "\<not> list_ex (named ''from:'') pre"
    and "has_name ''from:'' fl" and "nl t0" and "list_all folded conts"
    and "header_starts (unlines post)"
  shows "addReplyTo (unlines ls) =
           unlines (ls @ (''Reply-To: '' @ header_value ''from:'' fl, t0) # conts)"
proof -
  have nr: "\<not> re_test reply_to_re (unlines ls)"
  proof -
    have "\<not> has_name ''reply-to:'' []" by (simp add: has_name.simps)
    with re_test_reply_to_lines [OF assms(1), of "[]"] assms(2) show ?thesis by simp
  qed
  from assms(1,3) have w: "list_all wf_line pre" "wf_line (fl, t0)" "list_all wf_line conts"
    by simp_all
  from w(2) have fl: "list_all is_dot fl" by (simp add: wf_line_def)
  from assms(4) have np: "list_all (\<lambda>lt. \<not> named ''from:'' lt) pre"
    by (simp add: list_all_iff list_ex_iff)
  have "from_value (unlines pre @ fl @ t0 @ unlines conts @ unlines post) =
          header_value ''from:'' fl @ t0 @ unlines conts"
    by (rule from_value_lines [OF w(1) np assms(5) fl assms(6) w(3) assms(7,8)])
  then have fv: "from_value (unlines ls) = header_value ''from:'' fl @ t0 @ unlines conts"
    by (simp add: assms(3))
  have "t0 \<noteq> []" by (rule nl_nonempty [OF assms(6)])
  then show ?thesis using nr fv by (simp add: addReplyTo_def)
qed

lemma one_reply_to:
  assumes "\<not> list_ex (named ''reply-to:'') ls" and "list_all folded conts"
  shows "length (filter (named ''reply-to:'') (ls @ (''Reply-To: '' @ v, t0) # conts)) = 1"
proof -
  from assms(1) have 1: "filter (named ''reply-to:'') ls = []"
    by (simp add: list_ex_iff filter_empty_conv)
  from assms(2) have 2: "filter (named ''reply-to:'') conts = []"
    using folded_not_reply_to by (auto simp: list_all_iff filter_empty_conv)
  have 3: "named ''reply-to:'' (''Reply-To: '' @ v, t0)"
    using reply_to_name [of v] by (simp only: named_def fst_conv)
  show ?thesis by (simp only: filter_append filter.simps 1 2 3 if_True) simp
qed

text \<open>
  The \<^verbatim>\<open>Reply-To:\<close> step on a header block made of complete lines. When a line begins
  with \<^verbatim>\<open>reply-to:\<close> (in any case of the letters), the step leaves the header as it is.
  When no line does, and the first line that begins with \<^verbatim>\<open>from:\<close> is followed by folded
  continuation lines that each hold a character other than white space, and then by the
  start of another header or by nothing, the step appends one \<^verbatim>\<open>Reply-To:\<close> header that
  carries the value of that \<^verbatim>\<open>From:\<close> header verbatim, continuation lines included, and
  it is the only line of the result that begins with \<^verbatim>\<open>reply-to:\<close>. A continuation line
  of white space only is outside this form.
\<close>

lemma addReplyTo_complete_lines:
  assumes "list_all wf_line ls"
  shows "(list_ex (named ''reply-to:'') ls \<longrightarrow> addReplyTo (unlines ls) = unlines ls) \<and>
         (\<not> list_ex (named ''reply-to:'') ls \<and> ls = pre @ (fl, t0) # conts @ post \<and>
          \<not> list_ex (named ''from:'') pre \<and> has_name ''from:'' fl \<and> nl t0 \<and>
          list_all folded conts \<and> header_starts (unlines post) \<longrightarrow>
            addReplyTo (unlines ls) =
              unlines (ls @ (''Reply-To: '' @ header_value ''from:'' fl, t0) # conts) \<and>
            length (filter (named ''reply-to:'')
                      (ls @ (''Reply-To: '' @ header_value ''from:'' fl, t0) # conts)) = 1)"
  using addReplyTo_present [OF assms] addReplyTo_absent [OF assms] one_reply_to
  by blast

lemma addReplyTo_complete_lines_example:
  "addReplyTo (''From: a'' @ crlf @ ''reply-to: b'' @ crlf) =
     ''From: a'' @ crlf @ ''reply-to: b'' @ crlf \<and>
   addReplyTo (''To: b'' @ crlf @ ''From: Jane'' @ crlf @ '' <jane@x.com>'' @ crlf @
               ''Subject: Hi'' @ crlf) =
     ''To: b'' @ crlf @ ''From: Jane'' @ crlf @ '' <jane@x.com>'' @ crlf @
     ''Subject: Hi'' @ crlf @ ''Reply-To: Jane'' @ crlf @ '' <jane@x.com>'' @ crlf"
proof -
  have w1: "list_all wf_line lines_reply" by code_simp
  have h1: "list_ex (named ''reply-to:'') lines_reply" by code_simp
  have u1: "unlines lines_reply = ''From: a'' @ crlf @ ''reply-to: b'' @ crlf" by code_simp
  have w2: "list_all wf_line lines_fold" by code_simp
  have h2: "\<not> list_ex (named ''reply-to:'') lines_fold \<and>
            lines_fold = [(''To: b'', crlf)] @ (''From: Jane'', crlf) #
                           [('' <jane@x.com>'', crlf)] @ [(''Subject: Hi'', crlf)] \<and>
            \<not> list_ex (named ''from:'') [(''To: b'', crlf)] \<and> has_name ''from:'' ''From: Jane'' \<and>
            nl crlf \<and> list_all folded [('' <jane@x.com>'', crlf)] \<and>
            header_starts (unlines [(''Subject: Hi'', crlf)])"
    by code_simp
  have u2: "unlines lines_fold = ''To: b'' @ crlf @ ''From: Jane'' @ crlf @ '' <jane@x.com>'' @ crlf @
               ''Subject: Hi'' @ crlf" by code_simp
  have u3: "unlines (lines_fold @ (''Reply-To: '' @ header_value ''from:'' ''From: Jane'', crlf) #
               [('' <jane@x.com>'', crlf)]) =
     ''To: b'' @ crlf @ ''From: Jane'' @ crlf @ '' <jane@x.com>'' @ crlf @
     ''Subject: Hi'' @ crlf @ ''Reply-To: Jane'' @ crlf @ '' <jane@x.com>'' @ crlf" by code_simp
  from mp [OF conjunct1 [OF addReplyTo_complete_lines [OF w1]] h1]
  have a: "addReplyTo (unlines lines_reply) = unlines lines_reply" .
  from mp [OF conjunct2 [OF addReplyTo_complete_lines [OF w2]] h2]
  have b: "addReplyTo (unlines lines_fold) =
     unlines (lines_fold @ (''Reply-To: '' @ header_value ''from:'' ''From: Jane'', crlf) #
               [('' <jane@x.com>'', crlf)])" by (rule conjunct1)
  from a b show ?thesis unfolding u1 u2 u3 by (rule conjI)
qed

text \<open>
  The subject step on every header text, read as lines and a last line without
  terminator. With a subject prefix configured and not empty, the step turns every line
  that begins with \<^verbatim>\<open>subject:\<close> into \<^verbatim>\<open>Subject: \<close>, the prefix and the value of the line,
  and leaves the other lines as they are; run twice with the same prefix (a prefix without
  line break) it puts the prefix twice; with the prefix absent or empty nothing changes.
\<close>

lemma prefixSubject_every_line:
  assumes "list_all wf_line ls" and "list_all is_dot l"
  shows "(subjectPrefix cfg = Some P \<and> P \<noteq> [] \<longrightarrow>
            prefixSubject cfg (unlines ls @ l) =
              unlines (map (prefix_line P) ls) @ fst (prefix_line P (l, []))) \<and>
         (subjectPrefix cfg = Some P \<and> P \<noteq> [] \<and> list_all is_dot P \<longrightarrow>
            prefixSubject cfg (prefixSubject cfg (unlines ls @ l)) =
              unlines (map (prefix_line (P @ P)) ls) @ fst (prefix_line (P @ P) (l, []))) \<and>
         (\<not> truthy (subjectPrefix cfg) \<longrightarrow> prefixSubject cfg (unlines ls @ l) = unlines ls @ l)"
  using prefixSubject_lines [OF assms] prefixSubject_twice [OF assms]
  by (simp add: prefixSubject_def)

lemma prefixSubject_every_line_example:
  "prefixSubject (cfg_rules rules_info)
     (''From: a'' @ crlf @ ''SUBJECT:Hi'' @ crlf @ ''subject: again'' @ crlf) =
     ''From: a'' @ crlf @ ''Subject: [FWD] Hi'' @ crlf @ ''Subject: [FWD] again'' @ crlf \<and>
   prefixSubject (cfg_rules rules_info) (prefixSubject (cfg_rules rules_info)
     (''From: a'' @ crlf @ ''SUBJECT:Hi'' @ crlf @ ''subject: again'' @ crlf)) =
     ''From: a'' @ crlf @ ''Subject: [FWD] [FWD] Hi'' @ crlf @
     ''Subject: [FWD] [FWD] again'' @ crlf \<and>
   prefixSubject ((cfg_rules rules_info)\<lparr>subjectPrefix := Some []\<rparr>)
     (''From: a'' @ crlf @ ''SUBJECT:Hi'' @ crlf @ ''subject: again'' @ crlf) =
     ''From: a'' @ crlf @ ''SUBJECT:Hi'' @ crlf @ ''subject: again'' @ crlf"
proof -
  have w: "list_all wf_line lines_subject" by code_simp
  have d: "list_all is_dot []" by simp
  have h1: "subjectPrefix (cfg_rules rules_info) = Some ''[FWD] '' \<and> ''[FWD] '' \<noteq> []"
    by (simp add: cfg_rules_def)
  have h2: "subjectPrefix (cfg_rules rules_info) = Some ''[FWD] '' \<and> ''[FWD] '' \<noteq> [] \<and>
            list_all is_dot ''[FWD] ''"
    using h1 by (simp add: is_dot_def is_lt_def LF_def CR_def)
  have h3: "\<not> truthy (subjectPrefix ((cfg_rules rules_info)\<lparr>subjectPrefix := Some []\<rparr>))"
    by (simp add: truthy_def)
  have u: "unlines lines_subject @ [] =
             ''From: a'' @ crlf @ ''SUBJECT:Hi'' @ crlf @ ''subject: again'' @ crlf"
    by code_simp
  have r1: "unlines (map (prefix_line ''[FWD] '') lines_subject) @ fst (prefix_line ''[FWD] '' ([], [])) =
              ''From: a'' @ crlf @ ''Subject: [FWD] Hi'' @ crlf @ ''Subject: [FWD] again'' @ crlf"
    by code_simp
  have r2: "unlines (map (prefix_line (''[FWD] '' @ ''[FWD] '')) lines_subject) @
              fst (prefix_line (''[FWD] '' @ ''[FWD] '') ([], [])) =
              ''From: a'' @ crlf @ ''Subject: [FWD] [FWD] Hi'' @ crlf @
              ''Subject: [FWD] [FWD] again'' @ crlf"
    by code_simp
  note t = prefixSubject_every_line [OF w d]
  from mp [OF conjunct1 [OF t] h1]
  have a: "prefixSubject (cfg_rules rules_info) (unlines lines_subject @ []) =
             unlines (map (prefix_line ''[FWD] '') lines_subject) @ fst (prefix_line ''[FWD] '' ([], []))" .
  from mp [OF conjunct1 [OF conjunct2 [OF t]] h2]
  have b: "prefixSubject (cfg_rules rules_info)
             (prefixSubject (cfg_rules rules_info) (unlines lines_subject @ [])) =
             unlines (map (prefix_line (''[FWD] '' @ ''[FWD] '')) lines_subject) @
              fst (prefix_line (''[FWD] '' @ ''[FWD] '') ([], []))" .
  from mp [OF conjunct2 [OF conjunct2 [OF t]] h3]
  have c: "prefixSubject ((cfg_rules rules_info)\<lparr>subjectPrefix := Some []\<rparr>)
             (unlines lines_subject @ []) = unlines lines_subject @ []" .
  from a b c show ?thesis unfolding u r1 r2 by blast
qed

section \<open>The split of a message made of complete lines\<close>

text \<open>
  When the header is a non-empty block of non-empty lines, a blank line follows it, and the
  body is empty or ends with a line terminator, the split expression matches at the start of
  the message: its first group is the header block, its second the blank line and the whole
  body. The rewrite then changes the header only. A body that ends with another character
  is not of this form.
\<close>

lemma grps_line_re [simp]: "grps line_re = []"
  by (simp add: line_re_def Plus_def Opt_def Lit_def)

lemma grps_rest_re [simp]: "grps rest_re = []"
  by (simp add: rest_re_def Plus_def)

lemma split_re_shape:
  "split_re = Seq Bol (Seq (Grp 1 (Star True line_re))
     (Grp 2 (Seq (Opt (Lit CR)) (Seq (Lit LF) (Star True rest_re)))))"
  by (simp add: split_re_def line_re_def rest_re_def)

lemma line_iter:
  assumes "header_line (l, t)" and "k c (Some LF, s) = Some res"
  shows "rmatch line_re k c (pr, l @ t @ s) = Some res"
proof -
  from assms(1) have l: "l \<noteq> []" "list_all is_dot l" and t: "nl t"
    by (simp_all add: header_line_def)
  have "rmatch (Plus (Cls is_dot)) (rmatch (Opt (Lit CR)) (rmatch (Lit LF) k)) c (pr, l @ (t @ s)) =
          Some res"
    by (rule plus_spaces [OF l(2,1) ends_line_not_dot [OF nl_ends [OF t]]])
       (simp add: opt_cr_lf [OF t] assms(2))
  then show ?thesis by (simp add: line_re_def del: rmatch.simps(6))
qed

lemma line_fail:
  assumes "ends_line s"
  shows "rmatch line_re k c (pr, s) = None"
  using assms by (cases s) (simp_all add: line_re_def Plus_def ends_line_def is_dot_def)

lemma header_line_length: "list_all header_line hs \<Longrightarrow> length hs \<le> length (unlines hs)"
proof (induction hs)
  case Nil
  show ?case by simp
next
  case (Cons lt hs)
  then have "header_line lt" "list_all header_line hs" by simp_all
  from this(1) have "1 \<le> length (fst lt)" by (cases "fst lt") (simp_all add: header_line_def)
  with Cons.IH [OF \<open>list_all header_line hs\<close>] show ?case by simp
qed

lemma nl_last: "nl t \<Longrightarrow> last_of pr (l @ t) = Some LF"
  by (auto simp: nl_def)

lemma repeat_lines:
  assumes "list_all header_line hs" and "ends_line s" and "length hs < n"
    and "k c (last_of pr (unlines hs), s) = Some res"
  shows "repeat True [] (rmatch line_re) n k c (pr, unlines hs @ s) = Some res"
  using assms(1,3,4)
proof (induction hs arbitrary: n pr)
  case Nil
  then obtain n' where n: "n = Suc n'" by (cases n) auto
  have "rmatch line_re d c (pr, s) = None" for d by (rule line_fail [OF assms(2)])
  then show ?case using Nil.prems(3) by (simp add: n)
next
  case (Cons lt hs)
  obtain l t where lt: "lt = (l, t)" by (cases lt)
  from Cons.prems obtain n' where n: "n = Suc n'" by (cases n) auto
  from Cons.prems lt have h: "header_line (l, t)" and hs: "list_all header_line hs" by simp_all
  have n': "length hs < n'" using Cons.prems(2) n by simp
  from h have t: "nl t" by (simp add: header_line_def)
  have "k c (last_of (Some LF) (unlines hs), s) = Some res"
    using Cons.prems(3) nl_last [OF t, of pr l] by (simp add: lt)
  then have ih: "repeat True [] (rmatch line_re) n' k c (Some LF, unlines hs @ s) = Some res"
    by (rule Cons.IH [OF hs n'])
  from h have "l \<noteq> []" by (simp add: header_line_def)
  then have ne: "length (unlines hs @ s) \<noteq> length (unlines (lt # hs) @ s)" by (simp add: lt)
  let ?d = "\<lambda>c' q. if length (snd q) = length (snd (pr, unlines (lt # hs) @ s)) then None
                    else repeat True [] (rmatch line_re) n' k c' q"
  have "rmatch line_re ?d c (pr, l @ t @ (unlines hs @ s)) = Some res"
    by (rule line_iter [OF h]) (use ne ih in simp)
  then show ?case by (simp add: n lt)
qed

lemma rest_fail: "rmatch rest_re d c (pr, []) = None"
  by (simp add: rest_re_def Plus_def)

lemma takeWhile_all: "list_all P (takeWhile P xs)"
  by (induction xs) simp_all

lemma dropWhile_head: "case dropWhile P xs of [] \<Rightarrow> True | x # ys \<Rightarrow> \<not> P x"
  by (induction xs) simp_all

lemma last_dropWhile: "dropWhile P xs \<noteq> [] \<Longrightarrow> last (dropWhile P xs) = last xs"
  by (induction xs) (auto split: if_splits)

lemma repeat_body:
  assumes "r = [] \<or> is_lt (last r)" and "length r < n" and "k c (last_of pr r, []) = Some res"
  shows "repeat True [] (rmatch rest_re) n k c (pr, r) = Some res"
  using assms
proof (induction n arbitrary: r pr)
  case 0
  then show ?case by simp
next
  case (Suc n)
  show ?case
  proof (cases r)
    case Nil
    with Suc.prems(3) show ?thesis by (simp add: rest_fail)
  next
    case (Cons x xs)
    let ?u = "takeWhile is_dot r" and ?rest = "dropWhile is_dot r"
    let ?w = "takeWhile is_space ?rest" and ?r' = "dropWhile is_space ?rest"
    from Cons Suc.prems(1) have lr: "is_lt (last r)" by simp
    have rest: "?rest \<noteq> []"
    proof
      assume "?rest = []"
      then have "\<forall>y\<in>set r. is_dot y" by (simp add: dropWhile_eq_Nil_conv)
      moreover have "last r \<in> set r" using Cons by simp
      ultimately show False using lr by (simp add: is_dot_def)
    qed
    then obtain y ys where ry: "?rest = y # ys" by (cases ?rest) auto
    have "\<not> is_dot y" using dropWhile_head [of is_dot r] ry by simp
    then have sy: "is_space y" by (auto simp: is_dot_def is_lt_def is_space_def)
    have w: "?w \<noteq> []" using ry sy by simp
    have r: "r = ?u @ (?w @ ?r')" by simp
    have r': "?r' = [] \<or> is_lt (last ?r')"
    proof (cases "?r' = []")
      case True
      then show ?thesis by (rule disjI1)
    next
      case False
      have "last ?r' = last ?rest" by (rule last_dropWhile [OF False])
      also have "\<dots> = last r" by (rule last_dropWhile [OF rest])
      finally show ?thesis using lr by simp
    qed
    have len: "length ?r' < length r"
    proof -
      have "length r = length ?u + length ?w + length ?r'"
        by (metis append_assoc length_append takeWhile_dropWhile_id)
      with w show ?thesis by (cases ?w) simp_all
    qed
    with Suc.prems(2) have n: "length ?r' < n" by simp
    have lo: "last_of (last_of (last_of pr ?u) ?w) ?r' = last_of pr r"
      using last_of_append [of pr "?u @ ?w" ?r'] last_of_append [of pr ?u ?w] by simp
    have ih: "repeat True [] (rmatch rest_re) n k c (last_of (last_of pr ?u) ?w, ?r') = Some res"
      by (rule Suc.IH [OF r' n]) (simp only: lo Suc.prems(3))
    let ?d = "\<lambda>c' q. if length (snd q) = length (snd (pr, r)) then None
                      else repeat True [] (rmatch rest_re) n k c' q"
    have d: "?d c (last_of (last_of pr ?u) ?w, ?r') = Some res"
      using ih len by simp
    have p: "rmatch (Plus (Cls is_space)) ?d c (last_of pr ?u, ?w @ ?r') = Some res"
      by (rule plus_spaces [of is_space ?w ?r' ?d c "last_of pr ?u" res, OF takeWhile_all w dropWhile_head d])
    have nd: "case ?w @ ?r' of [] \<Rightarrow> True | x # xs \<Rightarrow> \<not> is_dot x"
      using dropWhile_head [of is_dot r] by simp
    have "rmatch (Star True (Cls is_dot)) (rmatch (Plus (Cls is_space)) ?d) c (pr, ?u @ (?w @ ?r')) =
            Some res"
      by (rule star_greedy_all [of is_dot ?u "?w @ ?r'" "rmatch (Plus (Cls is_space)) ?d" c pr res,
            OF takeWhile_all nd p])
    then have "rmatch rest_re ?d c (pr, r) = Some res"
      by (simp add: rest_re_def del: rmatch.simps(6))
    then show ?thesis by simp
  qed
qed

lemma match_split:
  assumes "list_all header_line hs" and "nl t" and "body = [] \<or> is_lt (last body)"
  shows "\<exists>c q. match_at split_re (None, unlines hs @ t @ body) = Some (c, (q, [])) \<and>
           c 1 = Some (unlines hs) \<and> c 2 = Some (t @ body)"
proof -
  let ?msg = "unlines hs @ t @ body"
  let ?p0 = "(None :: char option, ?msg)"
  let ?c0 = "(\<lambda>i. None) :: caps"
  let ?c1 = "?c0(1 \<mapsto> unlines hs)"
  let ?q1 = "last_of None (unlines hs)"
  let ?fin = "\<lambda>c q. Some (c, q) :: mres"
  let ?K2 = "\<lambda>c' q. ?fin (c'(2 \<mapsto> captured (?q1, t @ body) q)) q"
  let ?G2 = "Grp 2 (Seq (Opt (Lit CR)) (Seq (Lit LF) (Star True rest_re)))"
  let ?K1 = "\<lambda>c' q. rmatch ?G2 ?fin (c'(1 \<mapsto> captured ?p0 q)) q"
  let ?res = "(?c1(2 \<mapsto> t @ body), (last_of (Some LF) body, []))"
  have cap2: "captured (?q1, t @ body) (last_of (Some LF) body, []) = t @ body"
    by (simp add: captured_def)
  have "length body < Suc (length body)" by simp
  from repeat_body [OF assms(3) this, of ?K2 ?c1 "Some LF" ?res]
  have b: "rmatch (Star True rest_re) ?K2 ?c1 (Some LF, body) = Some ?res"
    by (simp add: cap2 del: repeat.simps)
  have cap1: "captured ?p0 (?q1, t @ body) = unlines hs"
    using captured_append [of None "unlines hs" "t @ body" ?q1] by simp
  have k1: "?K1 ?c0 (?q1, t @ body) = Some ?res"
    using b by (simp add: cap1 opt_cr_lf [OF assms(2)] del: rmatch.simps(6))
  have "length hs < Suc (length ?msg)" using header_line_length [OF assms(1)] by simp
  from repeat_lines [OF assms(1) nl_ends [OF assms(2)] this, of ?K1 ?c0 None body ?res] k1
  have "repeat True (grps line_re) (rmatch line_re) (Suc (length (snd ?p0))) ?K1 ?c0 ?p0 =
          Some ?res"
    by (simp del: repeat.simps rmatch.simps)
  then have "rmatch (Star True line_re) ?K1 ?c0 ?p0 = Some ?res"
    by (simp only: rmatch.simps(6))
  then have "match_at split_re ?p0 = Some ?res"
    unfolding split_re_shape match_at_def by (simp del: rmatch.simps(6))
  then show ?thesis by simp
qed

lemma split_message:
  assumes "hs \<noteq> []" and "list_all header_line hs" and "nl t" and "body = [] \<or> is_lt (last body)"
  shows "split_header (unlines hs @ t @ body) = unlines hs"
    and "split_body (unlines hs @ t @ body) = t @ body"
proof -
  from match_split [OF assms(2-4)] obtain c q where
    m: "match_at split_re (None, unlines hs @ t @ body) = Some (c, (q, []))"
       "c 1 = Some (unlines hs)" "c 2 = Some (t @ body)"
    by blast
  from assms(1) obtain lt hs' where hs: "hs = lt # hs'" by (cases hs) auto
  with assms(2) have "fst lt \<noteq> []" by (simp add: header_line_def)
  then obtain x xs where x: "unlines hs @ t @ body = x # xs"
    by (cases "fst lt") (simp_all add: hs)
  then have u: "unlines hs \<noteq> []" using \<open>fst lt \<noteq> []\<close> by (simp add: hs)
  have e: "exec split_re None (unlines hs @ t @ body) =
             Some ([], captured (None, unlines hs @ t @ body) (q, []), c, [])"
    using m(1) unfolding x by simp
  show "split_header (unlines hs @ t @ body) = unlines hs"
    using u m(2) by (simp add: split_header_def e cap_text_def del: exec.simps)
  show "split_body (unlines hs @ t @ body) = t @ body"
    using m(3) by (simp add: split_body_def e cap_text_def del: exec.simps)
qed

lemma rewrite_keeps_body:
  assumes "hs \<noteq> []" and "list_all header_line hs" and "nl t" and "body = [] \<or> is_lt (last body)"
  shows "rewrite cfg orig (unlines hs @ t @ body) =
           stripHeaders (overrideTo cfg (prefixSubject cfg (rewriteFrom cfg orig
             (addReplyTo (unlines hs))))) @ t @ body"
  by (simp only: rewrite_def split_message [OF assms])

end
